theory Spec2Isabelle
  imports Complex_Main "HOL-Library.Word" "HOL-Library.Signed_Division" "HOL-Library.Sublist"
    "HOL-Library.Log_Nat"
begin

section \<open>Time-domain convolution reverb (convolve.c)\<close>

text \<open>
  A shallow embedding of \<^verbatim>\<open>src/convolve.c\<close>. C arrays are lists; every array access of
  the source is guarded in the model, and an access outside the list is the fault
  \<open>Out_Of_Bounds\<close>. The loop counters of the source start at 0 and only count upwards, so
  they are natural numbers; the \<^verbatim>\<open>int\<close> sizes \<open>N\<close>, \<open>M\<close> and \<open>P\<close> stay integers, as passed.

  Samples in floating form: the two convolution loops only use \<open>0\<close>, \<open>+\<close> and \<open>*\<close>, and
  are written for every type that has these three symbols, with no law assumed about them
  (so the statements about the order of accumulation hold for rounded arithmetic too).
  Scaling needs an order and a division and is written for every linearly ordered field:
  the arithmetic is exact there. The functions that compute with samples are then given a
  second time with every rounding of the C expressions written out, and the roundings of
  \<^verbatim>\<open>float\<close> and \<^verbatim>\<open>double\<close> are defined on the reals.
  A division by zero is not a value of a field: the model stops with the IEEE exception
  the division signals (\<open>Invalid_Operation\<close> for \<open>0/0\<close>, \<open>Division_By_Zero\<close> otherwise),
  where the C program goes on with a NaN or an infinity in the buffer and writes its
  output file all the same. A fault of these two kinds marks where the model ends, not an
  error of the program.

  Files are byte lists with a read position. A read at the end of a file returns fewer
  bytes than asked, possibly none, and leaves the rest of the destination as it was; the
  source never looks at what \<^verbatim>\<open>fread\<close> returns, and neither does the model. The loop that
  looks for the data chunk can run forever: it is a partial function into \<open>option\<close>, and
  \<open>None\<close> is the run that never returns.

  The \<^verbatim>\<open>printf\<close> calls and what only feeds them (\<^verbatim>\<open>multiple\<close>, \<^verbatim>\<open>next10er\<close>,
  \<^verbatim>\<open>numSamplesOutsideRange\<close>, \<^verbatim>\<open>reportMaxMinIntegerSamples\<close>, the two mean values, the
  second call of \<^verbatim>\<open>largestSampleIn\<close> in the scaling function) write to the console and
  change no buffer. They read the arrays at indices that the surrounding code reads or
  writes too, so they add no fault; they are left out. So are the command line and the
  opening and closing of the three files.
\<close>

subsection \<open>Faults\<close>

datatype fault = Out_Of_Bounds | Division_By_Zero | Invalid_Operation | Integer_Division_Trap

subsection \<open>convolve: the two loops (lines 292-306)\<close>

text \<open>\<^verbatim>\<open>for (int p = 0; p < P; p++) y[p] = 0.0;\<close>\<close>

function clear_loop :: "int \<Rightarrow> nat \<Rightarrow> ('a::zero) list \<Rightarrow> fault + 'a list" where
  "clear_loop P p y =
     (if int p < P
      then (if p < length y then clear_loop P (p + 1) (y[p := 0]) else Inl Out_Of_Bounds)
      else Inr y)"
  by pat_completeness auto
termination
  by (relation "measure (\<lambda>(P, p, y). nat (P - int p))") auto

declare clear_loop.simps [simp del]

text \<open>\<^verbatim>\<open>for (int m = 0; m < M; m++) y[n+m] += x[n] * h[m];\<close>\<close>

function impulse_loop ::
  "('a::{zero,plus,times}) list \<Rightarrow> nat \<Rightarrow> 'a list \<Rightarrow> int \<Rightarrow> nat \<Rightarrow> 'a list \<Rightarrow> fault + 'a list" where
  "impulse_loop x n h M m y =
     (if int m < M
      then (if n < length x \<and> m < length h \<and> n + m < length y
            then impulse_loop x n h M (m + 1) (y[n + m := y ! (n + m) + x ! n * h ! m])
            else Inl Out_Of_Bounds)
      else Inr y)"
  by pat_completeness auto
termination
  by (relation "measure (\<lambda>(x, n, h, M, m, y). nat (M - int m))") auto

declare impulse_loop.simps [simp del]

text \<open>\<^verbatim>\<open>for (int n = 0; n < N; n++) { ... }\<close>\<close>

function sample_loop ::
  "('a::{zero,plus,times}) list \<Rightarrow> int \<Rightarrow> 'a list \<Rightarrow> int \<Rightarrow> nat \<Rightarrow> 'a list \<Rightarrow> fault + 'a list" where
  "sample_loop x N h M n y =
     (if int n < N
      then (case impulse_loop x n h M 0 y of
              Inl e \<Rightarrow> Inl e
            | Inr y' \<Rightarrow> sample_loop x N h M (n + 1) y')
      else Inr y)"
  by pat_completeness auto
termination
  by (relation "measure (\<lambda>(x, N, h, M, n, y). nat (N - int n))") auto

declare sample_loop.simps [simp del]

text \<open>The body of \<^verbatim>\<open>convolve\<close> up to, and without, the call of the scaling function.\<close>

definition convolve_loops ::
  "('a::{zero,plus,times}) list \<Rightarrow> int \<Rightarrow> 'a list \<Rightarrow> int \<Rightarrow> 'a list \<Rightarrow> int \<Rightarrow> fault + 'a list" where
  "convolve_loops x N h M y P =
     (case clear_loop P 0 y of
        Inl e \<Rightarrow> Inl e
      | Inr y0 \<Rightarrow> sample_loop x N h M 0 y0)"

subsection \<open>largestSampleIn (lines 347-374)\<close>

text \<open>
  The loop keeps \<^verbatim>\<open>highest\<close> and \<^verbatim>\<open>lowest\<close>; a sample is compared with
  \<^verbatim>\<open>lowest\<close> only in the \<^verbatim>\<open>else\<close> branch, that is when it is not a new highest.
\<close>

function largest_loop ::
  "('a::linordered_field) list \<Rightarrow> int \<Rightarrow> nat \<Rightarrow> 'a \<Rightarrow> 'a \<Rightarrow> fault + ('a \<times> 'a)" where
  "largest_loop y P p highest lowest =
     (if int p < P
      then (if p < length y
            then (if y ! p > highest then largest_loop y P (p + 1) (y ! p) lowest
                  else if y ! p < lowest then largest_loop y P (p + 1) highest (y ! p)
                  else largest_loop y P (p + 1) highest lowest)
            else Inl Out_Of_Bounds)
      else Inr (highest, lowest))"
  by pat_completeness auto
termination
  by (relation "measure (\<lambda>(y, P, p, highest, lowest). nat (P - int p))") auto

declare largest_loop.simps [simp del]

definition largestSampleIn :: "('a::linordered_field) list \<Rightarrow> int \<Rightarrow> fault + 'a" where
  "largestSampleIn y P =
     (case largest_loop y P 0 (- 9999999) 9999999 of
        Inl e \<Rightarrow> Inl e
      | Inr (highest, lowest) \<Rightarrow>
          Inr (if highest > \<bar>lowest\<bar> then highest + 1 / 1000000 else \<bar>lowest\<bar>))"

subsection \<open>scaleValuesToRangeOfPlusMinus1 (lines 326-342)\<close>

text \<open>The division \<^verbatim>\<open>y[p] /= largest\<close>, with the two IEEE exceptions of a zero divisor.\<close>

definition fdiv :: "('a::linordered_field) \<Rightarrow> 'a \<Rightarrow> fault + 'a" where
  "fdiv a b =
     (if b = 0 then Inl (if a = 0 then Invalid_Operation else Division_By_Zero)
      else Inr (a / b))"

text \<open>\<^verbatim>\<open>if (y[p] > 0.999999) y[p] -= 0.000001;\<close>\<close>

definition nudge :: "('a::linordered_field) list \<Rightarrow> nat \<Rightarrow> 'a list" where
  "nudge y p = (if y ! p > 999999 / 1000000 then y[p := y ! p - 1 / 1000000] else y)"

function scale_loop ::
  "('a::linordered_field) \<Rightarrow> int \<Rightarrow> nat \<Rightarrow> 'a list \<Rightarrow> fault + 'a list" where
  "scale_loop largest P p y =
     (if int p < P
      then (if p < length y
            then (case fdiv (y ! p) largest of
                    Inl e \<Rightarrow> Inl e
                  | Inr q \<Rightarrow> scale_loop largest P (p + 1) (nudge (y[p := q]) p))
            else Inl Out_Of_Bounds)
      else Inr y)"
  by pat_completeness auto
termination
  by (relation "measure (\<lambda>(largest, P, p, y). nat (P - int p))") auto

declare scale_loop.simps [simp del]

definition scaleValuesToRangeOfPlusMinus1 ::
  "('a::linordered_field) list \<Rightarrow> int \<Rightarrow> fault + 'a list" where
  "scaleValuesToRangeOfPlusMinus1 y P =
     (case largestSampleIn y P of
        Inl e \<Rightarrow> Inl e
      | Inr largest \<Rightarrow> scale_loop largest P 0 y)"

subsection \<open>convolve (lines 286-310)\<close>

definition convolve ::
  "('a::linordered_field) list \<Rightarrow> int \<Rightarrow> 'a list \<Rightarrow> int \<Rightarrow> 'a list \<Rightarrow> int \<Rightarrow> fault + 'a list" where
  "convolve x N h M y P =
     (case convolve_loops x N h M y P of
        Inl e \<Rightarrow> Inl e
      | Inr y' \<Rightarrow> scaleValuesToRangeOfPlusMinus1 y' P)"

subsection \<open>Conversion between short and float samples (lines 245-259)\<close>

text \<open>
  \<open>toFloat\<close> is the right-hand side of line 248, \<^verbatim>\<open>(samples[i] * 1.0) / 32768.0\<close>, and
  \<open>toInt\<close> that of line 258, \<^verbatim>\<open>(short)(floatSamples[i] * 32768.0)\<close>. The cast truncates
  towards zero. ISO C leaves the cast undefined when the truncated value does not fit a
  \<^verbatim>\<open>short\<close>; the model takes it modulo \<open>2^16\<close>, the "rollover into the negatives" that the
  comment at lines 369-373 of the source describes. (A compiler that truncates to \<^verbatim>\<open>int\<close>
  first gives another value once the truncated value does not fit an \<^verbatim>\<open>int\<close> either; the
  statements below apply \<open>toInt\<close> within the range of a \<^verbatim>\<open>short\<close>.)
\<close>

definition truncate_toward_zero :: "('a::floor_ceiling) \<Rightarrow> int" where
  "truncate_toward_zero v = (if 0 \<le> v then \<lfloor>v\<rfloor> else \<lceil>v\<rceil>)"

definition toFloat :: "16 word \<Rightarrow> ('a::floor_ceiling)" where
  "toFloat s = (of_int (sint s) * 1) / 32768"

definition toInt :: "('a::floor_ceiling) \<Rightarrow> 16 word" where
  "toInt v = word_of_int (truncate_toward_zero (v * 32768))"







subsection \<open>The same functions in rounded arithmetic\<close>

text \<open>
  The arrays of the source hold \<^verbatim>\<open>float\<close> values and its constants are \<^verbatim>\<open>double\<close>. The
  functions of this subsection are those above with every rounding of the C expression
  written out: \<open>single\<close> is the rounding of a result to \<^verbatim>\<open>float\<close>, \<open>double\<close> that of a
  result to \<^verbatim>\<open>double\<close>. An operation on two \<^verbatim>\<open>float\<close> operands is rounded to \<^verbatim>\<open>float\<close>
  and an operation with a \<^verbatim>\<open>double\<close> operand to \<^verbatim>\<open>double\<close> (\<^verbatim>\<open>FLT_EVAL_METHOD\<close> 0, as on
  x86-64), a product and the sum that takes it are two operations (no fused
  multiply-add), and a comparison rounds nothing. With the identity for both roundings
  they are the functions above (lemma \<open>convolve_rounded_exact\<close>).
\<close>

text \<open>\<^verbatim>\<open>y[n+m] += x[n] * h[m];\<close> with \<^verbatim>\<open>float\<close> operands: the product is rounded, then the sum.\<close>

function impulse_loop_rounded ::
  "('a \<Rightarrow> 'a) \<Rightarrow> ('a::{zero,plus,times}) list \<Rightarrow> nat \<Rightarrow> 'a list \<Rightarrow> int \<Rightarrow> nat \<Rightarrow> 'a list \<Rightarrow>
   fault + 'a list" where
  "impulse_loop_rounded single x n h M m y =
     (if int m < M
      then (if n < length x \<and> m < length h \<and> n + m < length y
            then impulse_loop_rounded single x n h M (m + 1)
                   (y[n + m := single (y ! (n + m) + single (x ! n * h ! m))])
            else Inl Out_Of_Bounds)
      else Inr y)"
  by pat_completeness auto
termination
  by (relation "measure (\<lambda>(single, x, n, h, M, m, y). nat (M - int m))") auto

declare impulse_loop_rounded.simps [simp del]

function sample_loop_rounded ::
  "('a \<Rightarrow> 'a) \<Rightarrow> ('a::{zero,plus,times}) list \<Rightarrow> int \<Rightarrow> 'a list \<Rightarrow> int \<Rightarrow> nat \<Rightarrow> 'a list \<Rightarrow>
   fault + 'a list" where
  "sample_loop_rounded single x N h M n y =
     (if int n < N
      then (case impulse_loop_rounded single x n h M 0 y of
              Inl e \<Rightarrow> Inl e
            | Inr y' \<Rightarrow> sample_loop_rounded single x N h M (n + 1) y')
      else Inr y)"
  by pat_completeness auto
termination
  by (relation "measure (\<lambda>(single, x, N, h, M, n, y). nat (N - int n))") auto

declare sample_loop_rounded.simps [simp del]

text \<open>The clearing loop stores the constant \<open>0.0\<close>, which no rounding changes.\<close>

definition convolve_loops_rounded ::
  "('a \<Rightarrow> 'a) \<Rightarrow> ('a::{zero,plus,times}) list \<Rightarrow> int \<Rightarrow> 'a list \<Rightarrow> int \<Rightarrow> 'a list \<Rightarrow> int \<Rightarrow>
   fault + 'a list" where
  "convolve_loops_rounded single x N h M y P =
     (case clear_loop P 0 y of
        Inl e \<Rightarrow> Inl e
      | Inr y0 \<Rightarrow> sample_loop_rounded single x N h M 0 y0)"

text \<open>
  \<^verbatim>\<open>largestSampleIn\<close>: the two initial values are \<^verbatim>\<open>double\<close> constants stored in \<^verbatim>\<open>float\<close>
  variables; the loop only compares and copies; \<^verbatim>\<open>fabs\<close> is exact; the sum
  \<^verbatim>\<open>highest+0.000001\<close> of line 366 is a \<^verbatim>\<open>double\<close> sum with the \<^verbatim>\<open>double\<close> nearest to
  \<open>0.000001\<close>; the value returned is converted to the return type \<^verbatim>\<open>float\<close>.
\<close>

definition largestSampleIn_rounded ::
  "('a \<Rightarrow> 'a) \<Rightarrow> ('a \<Rightarrow> 'a) \<Rightarrow> ('a::linordered_field) list \<Rightarrow> int \<Rightarrow> fault + 'a" where
  "largestSampleIn_rounded single double y P =
     (case largest_loop y P 0 (single (- 9999999)) (single 9999999) of
        Inl e \<Rightarrow> Inl e
      | Inr (highest, lowest) \<Rightarrow>
          Inr (single (if highest > \<bar>lowest\<bar> then double (highest + double (1 / 1000000))
                       else \<bar>lowest\<bar>)))"

text \<open>
  \<^verbatim>\<open>if (y[p] > 0.999999) y[p] -= 0.000001;\<close> compares with the \<^verbatim>\<open>double\<close> nearest to
  \<open>0.999999\<close>, subtracts in \<^verbatim>\<open>double\<close> and stores the difference in a \<^verbatim>\<open>float\<close>.
\<close>

definition nudge_rounded ::
  "('a \<Rightarrow> 'a) \<Rightarrow> ('a \<Rightarrow> 'a) \<Rightarrow> ('a::linordered_field) list \<Rightarrow> nat \<Rightarrow> 'a list" where
  "nudge_rounded single double y p =
     (if y ! p > double (999999 / 1000000)
      then y[p := single (double (y ! p - double (1 / 1000000)))]
      else y)"

text \<open>\<^verbatim>\<open>y[p] /= largest;\<close> is a \<^verbatim>\<open>float\<close> division: the quotient is rounded.\<close>

function scale_loop_rounded ::
  "('a \<Rightarrow> 'a) \<Rightarrow> ('a \<Rightarrow> 'a) \<Rightarrow> ('a::linordered_field) \<Rightarrow> int \<Rightarrow> nat \<Rightarrow> 'a list \<Rightarrow> fault + 'a list"
  where
  "scale_loop_rounded single double largest P p y =
     (if int p < P
      then (if p < length y
            then (case fdiv (y ! p) largest of
                    Inl e \<Rightarrow> Inl e
                  | Inr q \<Rightarrow> scale_loop_rounded single double largest P (p + 1)
                               (nudge_rounded single double (y[p := single q]) p))
            else Inl Out_Of_Bounds)
      else Inr y)"
  by pat_completeness auto
termination
  by (relation "measure (\<lambda>(single, double, largest, P, p, y). nat (P - int p))") auto

declare scale_loop_rounded.simps [simp del]

definition scaleValuesToRangeOfPlusMinus1_rounded ::
  "('a \<Rightarrow> 'a) \<Rightarrow> ('a \<Rightarrow> 'a) \<Rightarrow> ('a::linordered_field) list \<Rightarrow> int \<Rightarrow> fault + 'a list" where
  "scaleValuesToRangeOfPlusMinus1_rounded single double y P =
     (case largestSampleIn_rounded single double y P of
        Inl e \<Rightarrow> Inl e
      | Inr largest \<Rightarrow> scale_loop_rounded single double largest P 0 y)"

definition convolve_rounded ::
  "('a \<Rightarrow> 'a) \<Rightarrow> ('a \<Rightarrow> 'a) \<Rightarrow> ('a::linordered_field) list \<Rightarrow> int \<Rightarrow> 'a list \<Rightarrow> int \<Rightarrow> 'a list \<Rightarrow>
   int \<Rightarrow> fault + 'a list" where
  "convolve_rounded single double x N h M y P =
     (case convolve_loops_rounded single x N h M y P of
        Inl e \<Rightarrow> Inl e
      | Inr y' \<Rightarrow> scaleValuesToRangeOfPlusMinus1_rounded single double y' P)"

subsection \<open>Rounding to binary32 and binary64\<close>

text \<open>
  \<^verbatim>\<open>float\<close> is the IEEE 754 format binary32 and \<^verbatim>\<open>double\<close> is binary64, with 24 and 53
  bits of significand; the rounding is to nearest, ties to even. \<open>round_to p v\<close> is the
  multiple of \<open>2^(e - p + 1)\<close> nearest to \<open>v\<close>, where \<open>2^e \<le> |v| < 2^(e + 1)\<close>. The
  range of the exponent is not modelled: \<open>round_to\<close> is the rounding of the machine for
  the values between the smallest normal number and the largest finite one (for
  \<^verbatim>\<open>float\<close>, magnitudes from \<open>2^-126\<close> to below \<open>2^128\<close>).
\<close>

definition nearest_even :: "real \<Rightarrow> int" where
  "nearest_even v =
     (let f = \<lfloor>v\<rfloor>; d = v - of_int f
      in if d < 1 / 2 then f else if 1 / 2 < d then f + 1 else if even f then f else f + 1)"

definition pow2 :: "int \<Rightarrow> real" where
  "pow2 e = (if 0 \<le> e then 2 ^ nat e else 1 / 2 ^ nat (- e))"

text \<open>The exponent \<open>e\<close> with \<open>2^e \<le> a < 2^(e + 1)\<close>, for \<open>a > 0\<close>.\<close>

definition binary_exponent :: "real \<Rightarrow> int" where
  "binary_exponent a =
     (if 1 \<le> a then bitlen \<lfloor>a\<rfloor> - 1
      else (let k = bitlen \<lfloor>1 / a\<rfloor> - 1 in if 1 / a = 2 ^ nat k then - k else - k - 1))"

definition round_to :: "nat \<Rightarrow> real \<Rightarrow> real" where
  "round_to p v =
     (if v = 0 then 0
      else (let u = pow2 (binary_exponent \<bar>v\<bar> - (int p - 1))
            in of_int (nearest_even (v / u)) * u))"

definition binary32 :: "real \<Rightarrow> real" where
  "binary32 = round_to 24"

definition binary64 :: "real \<Rightarrow> real" where
  "binary64 = round_to 53"

subsection \<open>Byte streams\<close>

type_synonym byte = "8 word"

record FILE =
  contents :: "byte list"
  position :: nat

text \<open>The bytes that a read of at most \<open>n\<close> bytes delivers, and the stream after it.\<close>

definition fread :: "nat \<Rightarrow> FILE \<Rightarrow> byte list \<times> FILE" where
  "fread n f =
     (let bs = take n (drop (position f) (contents f))
      in (bs, f\<lparr>position := position f + length bs\<rparr>))"

text \<open>
  What a destination holds after a read that delivered \<open>bs\<close>: the bytes read, then what
  it held before.
\<close>

definition overlay :: "'b list \<Rightarrow> 'b list \<Rightarrow> 'b list" where
  "overlay bs old = bs @ drop (length bs) old"

text \<open>\<^verbatim>\<open>fseek(file, k, SEEK_SET)\<close> and \<^verbatim>\<open>fseek(file, off, SEEK_CUR)\<close>; the latter fails, and
  moves nothing, when the new position would be negative.\<close>

definition fseek_set :: "nat \<Rightarrow> FILE \<Rightarrow> FILE" where
  "fseek_set k f = f\<lparr>position := k\<rparr>"

definition fseek_cur :: "int \<Rightarrow> FILE \<Rightarrow> FILE" where
  "fseek_cur off f =
     (if 0 \<le> int (position f) + off then f\<lparr>position := nat (int (position f) + off)\<rparr>
      else f)"

definition fwrite :: "byte list \<Rightarrow> FILE \<Rightarrow> FILE" where
  "fwrite bs f =
     f\<lparr>contents := take (position f) (contents f)
                    @ replicate (position f - length (contents f)) 0
                    @ bs @ drop (position f + length bs) (contents f),
       position := position f + length bs\<rparr>"

text \<open>Little-endian integers, as the source assumes (comments at lines 242 and 252).\<close>

definition le16 :: "byte list \<Rightarrow> 16 word" where
  "le16 bs = ucast (bs ! 0) + 256 * ucast (bs ! 1)"

definition le32 :: "byte list \<Rightarrow> 32 word" where
  "le32 bs = ucast (bs ! 0) + 256 * ucast (bs ! 1) + 65536 * ucast (bs ! 2)
             + 16777216 * ucast (bs ! 3)"

definition bytes16 :: "16 word \<Rightarrow> byte list" where
  "bytes16 w = [ucast w, ucast (drop_bit 8 w)]"

definition bytes32 :: "32 word \<Rightarrow> byte list" where
  "bytes32 w = [ucast w, ucast (drop_bit 8 w), ucast (drop_bit 16 w), ucast (drop_bit 24 w)]"

subsection \<open>WavHeader and FileData (lines 27-61)\<close>

text \<open>A \<^verbatim>\<open>char[4]\<close> field: four bytes, read and written by index.\<close>

type_synonym char4 = "byte \<times> byte \<times> byte \<times> byte"

fun list_of_char4 :: "char4 \<Rightarrow> byte list" where
  "list_of_char4 (a, b, c, d) = [a, b, c, d]"

definition char4_of_list :: "byte list \<Rightarrow> char4" where
  "char4_of_list bs = (bs ! 0, bs ! 1, bs ! 2, bs ! 3)"

definition index4 :: "char4 \<Rightarrow> nat \<Rightarrow> byte" where
  "index4 t i = list_of_char4 t ! i"

definition update4 :: "char4 \<Rightarrow> nat \<Rightarrow> byte \<Rightarrow> char4" where
  "update4 t i c = char4_of_list ((list_of_char4 t)[i := c])"

record WavHeader =
  chunk_id :: char4
  chunk_size :: "32 word"
  format :: char4
  subchunk1_id :: char4
  subchunk1_size :: "32 word"
  audio_format :: "16 word"
  num_channels :: "16 word"
  sample_rate :: "32 word"
  byte_rate :: "32 word"
  block_align :: "16 word"
  bits_per_sample :: "16 word"
  subchunk2_id :: char4
  subchunk2_size :: "32 word"

text \<open>
  The 44 bytes of the struct in memory (no padding: every field lies at a multiple of its
  size), which \<^verbatim>\<open>fread\<close> fills and \<^verbatim>\<open>fwrite\<close> writes as they are.
\<close>

definition slice :: "nat \<Rightarrow> nat \<Rightarrow> 'b list \<Rightarrow> 'b list" where
  "slice off n bs = take n (drop off bs)"

definition header_of_bytes :: "byte list \<Rightarrow> WavHeader" where
  "header_of_bytes bs =
     \<lparr>chunk_id = char4_of_list (slice 0 4 bs), chunk_size = le32 (slice 4 4 bs),
      format = char4_of_list (slice 8 4 bs), subchunk1_id = char4_of_list (slice 12 4 bs),
      subchunk1_size = le32 (slice 16 4 bs),
      audio_format = le16 (slice 20 2 bs), num_channels = le16 (slice 22 2 bs),
      sample_rate = le32 (slice 24 4 bs), byte_rate = le32 (slice 28 4 bs),
      block_align = le16 (slice 32 2 bs), bits_per_sample = le16 (slice 34 2 bs),
      subchunk2_id = char4_of_list (slice 36 4 bs), subchunk2_size = le32 (slice 40 4 bs)\<rparr>"

definition header_to_bytes :: "WavHeader \<Rightarrow> byte list" where
  "header_to_bytes h =
     list_of_char4 (chunk_id h) @ bytes32 (chunk_size h) @ list_of_char4 (format h)
     @ list_of_char4 (subchunk1_id h) @ bytes32 (subchunk1_size h)
     @ bytes16 (audio_format h) @ bytes16 (num_channels h)
     @ bytes32 (sample_rate h) @ bytes32 (byte_rate h) @ bytes16 (block_align h)
     @ bytes16 (bits_per_sample h) @ list_of_char4 (subchunk2_id h)
     @ bytes32 (subchunk2_size h)"

text \<open>The file names are only used to open the files and are left out.\<close>

record FileData =
  sample_file :: FILE
  impulse_file :: FILE
  output_file :: FILE
  header_sample :: WavHeader
  header_impulse :: WavHeader
  header_output :: WavHeader

subsection \<open>skipPastNullBytesInInputFileHeadersIfPresent (lines 197-207)\<close>

definition skipPastNullBytesInInputFileHeadersIfPresent :: "FileData \<Rightarrow> FileData" where
  "skipPastNullBytesInInputFileHeadersIfPresent f =
     (let f1 = (if subchunk1_size (header_sample f) \<noteq> 16
                then f\<lparr>sample_file :=
                         fseek_cur (sint (subchunk1_size (header_sample f) - 16))
                           (sample_file f)\<rparr>
                else f)
      in (if subchunk1_size (header_impulse f1) \<noteq> 16
          then f1\<lparr>impulse_file :=
                   fseek_cur (sint (subchunk1_size (header_impulse f1) - 16))
                     (impulse_file f1)\<rparr>
          else f1))"

subsection \<open>ensureSubchunk2_idIsSetProperly (lines 221-239)\<close>

definition data_tag :: "byte list" where
  "data_tag = map of_char ''data''"

text \<open>The negated condition of the two \<^verbatim>\<open>while\<close> loops.\<close>

definition is_data :: "char4 \<Rightarrow> bool" where
  "is_data ident \<longleftrightarrow>
     index4 ident 0 = of_char CHR ''d'' \<and> index4 ident 1 = of_char CHR ''a'' \<and>
     index4 ident 2 = of_char CHR ''t'' \<and> index4 ident 3 = of_char CHR ''a''"

text \<open>
  The \<^verbatim>\<open>for\<close> loop: \<^verbatim>\<open>fread(&id[i], 1, 1, file); if (id[i] != "data"[i]) break;\<close>. At the
  end of the file the read delivers nothing and \<^verbatim>\<open>id[i]\<close> keeps its value.
\<close>

function tag_for_loop :: "nat \<Rightarrow> char4 \<times> FILE \<Rightarrow> char4 \<times> FILE" where
  "tag_for_loop i (ident, file) =
     (if i < 4
      then (let (bs, file') = fread 1 file;
                ident' = (case bs of [c] \<Rightarrow> update4 ident i c | _ \<Rightarrow> ident)
            in if index4 ident' i \<noteq> data_tag ! i then (ident', file')
               else tag_for_loop (i + 1) (ident', file'))
      else (ident, file))"
  by pat_completeness auto
termination
  by (relation "measure (\<lambda>(i, s). 4 - i)") auto

declare tag_for_loop.simps [simp del]

text \<open>The \<^verbatim>\<open>while\<close> loop, for one file and the \<^verbatim>\<open>subchunk2_id\<close> of its header.\<close>

partial_function (option) tag_while :: "char4 \<times> FILE \<Rightarrow> (char4 \<times> FILE) option" where
  "tag_while s = (if \<not> is_data (fst s) then tag_while (tag_for_loop 0 s) else Some s)"

declare tag_while.simps [code]

definition ensureSubchunk2_idIsSetProperly :: "FileData \<Rightarrow> FileData option" where
  "ensureSubchunk2_idIsSetProperly f =
     (case tag_while (subchunk2_id (header_sample f), sample_file f) of
        None \<Rightarrow> None
      | Some (id_s, file_s) \<Rightarrow>
          (case tag_while (subchunk2_id (header_impulse f), impulse_file f) of
             None \<Rightarrow> None
           | Some (id_i, file_i) \<Rightarrow>
               Some (f\<lparr>header_sample := (header_sample f)\<lparr>subchunk2_id := id_s\<rparr>,
                        sample_file := file_s,
                        header_impulse := (header_impulse f)\<lparr>subchunk2_id := id_i\<rparr>,
                        impulse_file := file_i\<rparr>)))"

subsection \<open>readInputFileHeaders (lines 167-186)\<close>

text \<open>
  Lines 169-180, before the search for the tag: the two headers are read,
  \<^verbatim>\<open>sizeof(WavHeader)\<close> being 44 the two \<^verbatim>\<open>fseek\<close> calls go back to byte 36, the extra
  bytes of the first sub-chunk are skipped and four bytes are read into \<^verbatim>\<open>subchunk2_id\<close>.
\<close>

definition readInputFileHeaders_before_scan :: "FileData \<Rightarrow> FileData" where
  "readInputFileHeaders_before_scan f =
     (let (bs, sf) = fread 44 (sample_file f);
          (bi, imf) = fread 44 (impulse_file f);
          f1 = f\<lparr>header_sample :=
                   header_of_bytes (overlay bs (header_to_bytes (header_sample f))),
                 header_impulse :=
                   header_of_bytes (overlay bi (header_to_bytes (header_impulse f))),
                 sample_file := fseek_set 36 sf, impulse_file := fseek_set 36 imf\<rparr>;
          f2 = skipPastNullBytesInInputFileHeadersIfPresent f1;
          (ids, sf2) = fread 4 (sample_file f2);
          (idi, imf2) = fread 4 (impulse_file f2)
      in f2\<lparr>header_sample :=
              (header_sample f2)\<lparr>subchunk2_id :=
                 char4_of_list
                   (overlay ids (list_of_char4 (subchunk2_id (header_sample f2))))\<rparr>,
            header_impulse :=
              (header_impulse f2)\<lparr>subchunk2_id :=
                 char4_of_list
                   (overlay idi (list_of_char4 (subchunk2_id (header_impulse f2))))\<rparr>,
            sample_file := sf2, impulse_file := imf2\<rparr>)"

text \<open>Lines 184-185, after it: the four bytes of \<^verbatim>\<open>subchunk2_size\<close>.\<close>

definition readInputFileHeaders_after_scan :: "FileData \<Rightarrow> FileData" where
  "readInputFileHeaders_after_scan f =
     (let (zs, sf) = fread 4 (sample_file f);
          (zi, imf) = fread 4 (impulse_file f)
      in f\<lparr>header_sample :=
             (header_sample f)\<lparr>subchunk2_size :=
                le32 (overlay zs (bytes32 (subchunk2_size (header_sample f))))\<rparr>,
           header_impulse :=
             (header_impulse f)\<lparr>subchunk2_size :=
                le32 (overlay zi (bytes32 (subchunk2_size (header_impulse f))))\<rparr>,
           sample_file := sf, impulse_file := imf\<rparr>)"

definition readInputFileHeaders :: "FileData \<Rightarrow> FileData option" where
  "readInputFileHeaders f =
     (case ensureSubchunk2_idIsSetProperly (readInputFileHeaders_before_scan f) of
        None \<Rightarrow> None
      | Some f' \<Rightarrow> Some (readInputFileHeaders_after_scan f'))"

subsection \<open>getDataSamplesFromInputFiles (lines 190-194)\<close>




subsection \<open>writeOutputFile (lines 262-273)\<close>

text \<open>
  The three assignments are those of lines 266-268, in 32-bit arithmetic. A negative
  \<open>P\<close>, or one beyond the length of \<open>y\<close>, makes the second \<^verbatim>\<open>fwrite\<close> read outside \<open>y\<close>.
\<close>

definition writeOutputFile :: "FileData \<Rightarrow> 16 word list \<Rightarrow> int \<Rightarrow> fault + FileData" where
  "writeOutputFile f y P =
     (let h0 = header_sample f;
          h1 = h0\<lparr>subchunk1_size := 16\<rparr>;
          h2 = h1\<lparr>subchunk2_size := word_of_int P * 2\<rparr>;
          h3 = h2\<lparr>chunk_size := 36 + subchunk2_size h2\<rparr>;
          out = fwrite (header_to_bytes h3) (output_file f)
      in if 0 \<le> P \<and> nat P \<le> length y
         then Inr (f\<lparr>header_output := h3,
                     output_file := fwrite (concat (map bytes16 (take (nat P) y))) out\<rparr>)
         else Inl Out_Of_Bounds)"

subsection \<open>createOutputFile (lines 125-164)\<close>






section \<open>Notions used in the statements and proofs\<close>

subsection \<open>Which samples of x meet index k of y\<close>

text \<open>
  Sample \<open>j\<close> of \<open>x\<close> adds to \<open>y[k]\<close> when \<open>k = j + m\<close> for some \<open>0 \<le> m < M\<close>.
\<close>

definition contributes :: "int \<Rightarrow> nat \<Rightarrow> nat \<Rightarrow> bool" where
  "contributes M k j \<longleftrightarrow> j \<le> k \<and> int k < int j + M"

subsection \<open>One step of the loop of largestSampleIn\<close>

fun track :: "('a::linordered_field) \<times> 'a \<Rightarrow> 'a \<Rightarrow> 'a \<times> 'a" where
  "track (highest, lowest) v =
     (if v > highest then (v, lowest) else if v < lowest then (highest, v)
      else (highest, lowest))"

subsection \<open>What the scaling loop does to one sample, once divided\<close>

definition adjust :: "('a::linordered_field) \<Rightarrow> 'a" where
  "adjust q = (if q > 999999 / 1000000 then q - 1 / 1000000 else q)"

subsection \<open>The renormalizer as the specification words it\<close>

text \<open>
  Section 4.4 of the specification: the peak is \<open>max(max(y), abs(min(y)))\<close>; if the true
  maximum is positive the scale is the peak plus \<open>1e-6\<close>, otherwise \<open>abs(min(y))\<close>; every
  sample is divided by the scale, and a sample still \<open>\<ge> 0.999999\<close> is decremented by
  \<open>1e-6\<close>. This definition follows those words, not the source.
\<close>

definition renormalize_spec :: "('a::linordered_field) list \<Rightarrow> 'a list" where
  "renormalize_spec y =
     (let peak = max (Max (set y)) \<bar>Min (set y)\<bar>;
          scale = (if 0 < Max (set y) then peak + 1 / 1000000 else \<bar>Min (set y)\<bar>)
      in map (\<lambda>v. if v / scale \<ge> 999999 / 1000000 then v / scale - 1 / 1000000
                  else v / scale) y)"

subsection \<open>The bytes a stream has left\<close>

definition rest :: "FILE \<Rightarrow> byte list" where
  "rest f = drop (position f) (contents f)"

text \<open>A stream that ends inside a tag: its last bytes are \<open>d\<close>, \<open>da\<close> or \<open>dat\<close>.\<close>

definition ends_in_partial_tag :: "byte list \<Rightarrow> bool" where
  "ends_in_partial_tag bs \<longleftrightarrow>
     suffix (take 1 data_tag) bs \<or> suffix (take 2 data_tag) bs \<or> suffix (take 3 data_tag) bs"

subsection \<open>The for loop of the tag search, on the bytes left\<close>

function for_list :: "nat \<Rightarrow> char4 \<Rightarrow> byte list \<Rightarrow> char4 \<times> byte list" where
  "for_list i ident r =
     (if i < 4
      then (let ident' = (case r of [] \<Rightarrow> ident | c # _ \<Rightarrow> update4 ident i c)
            in if index4 ident' i \<noteq> data_tag ! i then (ident', drop 1 r)
               else for_list (i + 1) ident' (drop 1 r))
      else (ident, r))"
  by pat_completeness auto
termination
  by (relation "measure (\<lambda>(i, ident, r). 4 - i)") auto

declare for_list.simps [simp del]

text \<open>
  The states from which the search can still come back: the buffer holds the tag, or the
  tag lies ahead, or the stream ends inside a tag.
\<close>

definition tag_reachable :: "char4 \<times> FILE \<Rightarrow> bool" where
  "tag_reachable s \<longleftrightarrow>
     is_data (fst s) \<or> sublist data_tag (rest (snd s)) \<or> ends_in_partial_tag (rest (snd s))"

subsection \<open>Files for the examples\<close>

text \<open>
  The three streams as \<^verbatim>\<open>openFileStreams\<close> leaves them, the output empty, and the three
  headers holding whatever \<open>h\<close> the memory of \<^verbatim>\<open>main\<close> held.
\<close>

definition opened :: "byte list \<Rightarrow> byte list \<Rightarrow> WavHeader \<Rightarrow> FileData" where
  "opened sample impulse h =
     \<lparr>sample_file = \<lparr>contents = sample, position = 0\<rparr>,
      impulse_file = \<lparr>contents = impulse, position = 0\<rparr>,
      output_file = \<lparr>contents = [], position = 0\<rparr>,
      header_sample = h, header_impulse = h, header_output = h\<rparr>"

definition zero_header :: WavHeader where
  "zero_header = header_of_bytes (replicate 44 0)"

text \<open>
  The first 36 bytes of a 16-bit mono file at 44100 Hz, whose first sub-chunk has the
  length 16; \<open>n\<close> is the length of the file less 8, for bytes 4-7.
\<close>

definition riff_fmt :: "byte \<Rightarrow> byte list" where
  "riff_fmt n =
     map of_char ''RIFF'' @ [n, 0, 0, 0] @ map of_char ''WAVEfmt '' @ [16, 0, 0, 0]
     @ [1, 0, 1, 0, 68, 172, 0, 0, 136, 88, 1, 0, 2, 0, 16, 0]"

text \<open>A file with the one sample 16384 (0.5), and a file with no sample at all.\<close>

definition wav_one_sample :: "byte list" where
  "wav_one_sample = riff_fmt 38 @ map of_char ''data'' @ [2, 0, 0, 0] @ [0, 64]"


text \<open>
  One sample after a \<^verbatim>\<open>LIST\<close> chunk of 16 bytes whose last byte is the letter d (the
  title "bird"); and a file with an empty \<^verbatim>\<open>LIST\<close> chunk and no data chunk.
\<close>

definition wav_title_bird :: "byte list" where
  "wav_title_bird =
     riff_fmt 62 @ map of_char ''LIST'' @ [16, 0, 0, 0] @ map of_char ''INFOINAM''
     @ [4, 0, 0, 0] @ map of_char ''bird'' @ map of_char ''data'' @ [2, 0, 0, 0] @ [0, 64]"

definition wav_without_data :: "byte list" where
  "wav_without_data =
     riff_fmt 40 @ map of_char ''LIST'' @ [4, 0, 0, 0] @ map of_char ''INFO''"

section \<open>Properties\<close>

subsection \<open>The loops of convolve\<close>

lemma clear_loop_nth:
  "P \<le> int (length y) \<Longrightarrow>
   \<exists>y'. clear_loop P p y = Inr y' \<and> length y' = length y \<and>
        (\<forall>k<length y. y' ! k = (if p \<le> k \<and> int k < P then 0 else y ! k))"
proof (induction P p y rule: clear_loop.induct)
  case (1 P p y)
  show ?case
  proof (cases "int p < P")
    case False
    then show ?thesis by (subst clear_loop.simps) auto
  next
    case True
    with "1.prems" have pl: "p < length y" by linarith
    from "1.IH" [OF True pl] "1.prems"
    obtain y' where y': "clear_loop P (p + 1) (y[p := 0]) = Inr y'" "length y' = length y"
      "\<forall>k<length y. y' ! k = (if p + 1 \<le> k \<and> int k < P then 0 else (y[p := 0]) ! k)"
      by auto
    have "clear_loop P p y = Inr y'"
      using True pl y'(1) by (subst clear_loop.simps) simp
    moreover have "\<forall>k<length y. y' ! k = (if p \<le> k \<and> int k < P then 0 else y ! k)"
      using y'(3) True pl by (auto simp: nth_list_update)
    ultimately show ?thesis using y'(2) by blast
  qed
qed

lemma impulse_loop_nth:
  "n < length x \<Longrightarrow> M \<le> int (length h) \<Longrightarrow> int n + M \<le> int (length y) \<Longrightarrow>
   \<exists>y'. impulse_loop x n h M m y = Inr y' \<and> length y' = length y \<and>
        (\<forall>k<length y. y' ! k =
            (if n + m \<le> k \<and> int k < int n + M then y ! k + x ! n * h ! (k - n) else y ! k))"
proof (induction x n h M m y rule: impulse_loop.induct)
  case (1 x n h M m y)
  show ?case
  proof (cases "int m < M")
    case False
    then show ?thesis by (subst impulse_loop.simps) auto
  next
    case True
    with "1.prems" have b: "n < length x \<and> m < length h \<and> n + m < length y" by linarith
    let ?y1 = "y[n + m := y ! (n + m) + x ! n * h ! m]"
    from "1.IH" [OF True b] "1.prems"
    obtain y' where y': "impulse_loop x n h M (m + 1) ?y1 = Inr y'" "length y' = length y"
      "\<forall>k<length y. y' ! k =
          (if n + (m + 1) \<le> k \<and> int k < int n + M then ?y1 ! k + x ! n * h ! (k - n) else ?y1 ! k)"
      by auto
    have "impulse_loop x n h M m y = Inr y'"
      using True b y'(1) by (subst impulse_loop.simps) simp
    moreover have "\<forall>k<length y. y' ! k =
            (if n + m \<le> k \<and> int k < int n + M then y ! k + x ! n * h ! (k - n) else y ! k)"
      using y'(3) True b by (auto simp: nth_list_update)
    ultimately show ?thesis using y'(2) by blast
  qed
qed

lemma sample_loop_nth:
  "N \<le> int (length x) \<Longrightarrow> M \<le> int (length h) \<Longrightarrow> N + M - 1 \<le> int (length y) \<Longrightarrow>
   \<exists>y'. sample_loop x N h M n y = Inr y' \<and> length y' = length y \<and>
        (\<forall>k<length y. y' ! k =
            foldl (\<lambda>acc j. acc + x ! j * h ! (k - j)) (y ! k)
              (filter (contributes M k) [n..<nat N]))"
proof (induction x N h M n y rule: sample_loop.induct)
  case (1 x N h M n y)
  show ?case
  proof (cases "int n < N")
    case False
    then show ?thesis by (subst sample_loop.simps) auto
  next
    case True
    with "1.prems" have b: "n < length x" "int n + M \<le> int (length y)" by linarith+
    from impulse_loop_nth [OF b(1) "1.prems"(2) b(2), of 0]
    obtain y1 where y1: "impulse_loop x n h M 0 y = Inr y1" "length y1 = length y"
      "\<forall>k<length y. y1 ! k = (if contributes M k n then y ! k + x ! n * h ! (k - n) else y ! k)"
      by (auto simp: contributes_def)
    from "1.IH" [OF True y1(1)] "1.prems" y1(2)
    obtain y' where y': "sample_loop x N h M (n + 1) y1 = Inr y'" "length y' = length y"
      "\<forall>k<length y. y' ! k =
            foldl (\<lambda>acc j. acc + x ! j * h ! (k - j)) (y1 ! k)
              (filter (contributes M k) [n + 1..<nat N])"
      by auto
    have "sample_loop x N h M n y = Inr y'"
      using True y1(1) y'(1) by (subst sample_loop.simps) simp
    moreover have upt: "[n..<nat N] = n # [n + 1..<nat N]"
      using True by (simp add: upt_conv_Cons)
    have "\<forall>k<length y. y' ! k =
            foldl (\<lambda>acc j. acc + x ! j * h ! (k - j)) (y ! k)
              (filter (contributes M k) [n..<nat N])"
      using y'(3) y1(3) by (simp add: upt)
    ultimately show ?thesis using y'(2) by blast
  qed
qed

lemma foldl_plus_sum_list:
  fixes a :: "'a::comm_monoid_add"
  shows "foldl (\<lambda>acc j. acc + g j) a js = a + sum_list (map g js)"
  by (induction js arbitrary: a) (simp_all add: add.assoc)

lemma contributors_sum:
  fixes g :: "nat \<Rightarrow> 'a::comm_monoid_add"
  shows "sum_list (map g (filter (contributes M k) [0..<n])) = sum g {j. j < n \<and> contributes M k j}"
proof -
  have "sum_list (map g (filter (contributes M k) [0..<n])) = sum g (set (filter (contributes M k) [0..<n]))"
    by (rule sum_list_distinct_conv_sum_set) simp
  also have "set (filter (contributes M k) [0..<n]) = {j. j < n \<and> contributes M k j}"
    by auto
  finally show ?thesis .
qed

lemma convolve_loops_fold:
  assumes "N \<le> int (length x)" "M \<le> int (length h)" "N + M - 1 \<le> int (length y)" "P \<le> int (length y)"
  shows "\<exists>y'. convolve_loops x N h M y P = Inr y' \<and> length y' = length y \<and>
        (\<forall>k<length y. y' ! k =
            foldl (\<lambda>acc j. acc + x ! j * h ! (k - j)) (if int k < P then 0 else y ! k)
              (filter (contributes M k) [0..<nat N]))"
proof -
  from clear_loop_nth [OF assms(4), of 0]
  obtain y0 where y0: "clear_loop P 0 y = Inr y0" "length y0 = length y"
      "\<forall>k<length y. y0 ! k = (if int k < P then 0 else y ! k)"
    by auto
  from sample_loop_nth [of N x M h y0 0] assms y0(2)
  obtain y' where y': "sample_loop x N h M 0 y0 = Inr y'" "length y' = length y"
      "\<forall>k<length y. y' ! k =
            foldl (\<lambda>acc j. acc + x ! j * h ! (k - j)) (y0 ! k)
              (filter (contributes M k) [0..<nat N])"
    by auto
  have "convolve_loops x N h M y P = Inr y'"
    by (simp add: convolve_loops_def y0(1) y'(1))
  then show ?thesis using y'(2,3) y0(3) by auto
qed

lemma convolve_loops_sum_aux:
  fixes x h y :: "'a::semiring_0 list"
  assumes "1 \<le> N" and "1 \<le> M"
    and "int (length x) = N" and "int (length h) = M" and "int (length y) = N + M - 1"
  shows "\<exists>y'. convolve_loops x N h M y (N + M - 1) = Inr y' \<and>
           int (length y') = N + M - 1 \<and>
           (\<forall>p<length y'. y' ! p =
               (\<Sum>n | n < length x \<and> n \<le> p \<and> p - n < length h. x ! n * h ! (p - n)))"
proof -
  from convolve_loops_fold [of N x M h y "N + M - 1"] assms
  obtain y' where y': "convolve_loops x N h M y (N + M - 1) = Inr y'" "length y' = length y"
      "\<forall>k<length y. y' ! k =
            foldl (\<lambda>acc j. acc + x ! j * h ! (k - j)) (if int k < N + M - 1 then 0 else y ! k)
              (filter (contributes M k) [0..<nat N])"
    by auto
  have "y' ! p = (\<Sum>n | n < length x \<and> n \<le> p \<and> p - n < length h. x ! n * h ! (p - n))"
    if "p < length y'" for p
  proof -
    have p: "p < length y" "int p < N + M - 1" using that y'(2) assms(5) by auto
    have eq: "{j. j < nat N \<and> contributes M p j} = {n. n < length x \<and> n \<le> p \<and> p - n < length h}"
      using assms(3,4) by (auto simp: contributes_def)
    show ?thesis
      using y'(3) p by (simp add: foldl_plus_sum_list contributors_sum eq)
  qed
  then show ?thesis using y'(1,2) assms(5) by auto
qed

lemma convolution_sum_commute:
  fixes x h :: "'a::comm_semiring_0 list"
  shows "(\<Sum>n | n < length x \<and> n \<le> p \<and> p - n < length h. x ! n * h ! (p - n)) =
         (\<Sum>m | m < length h \<and> m \<le> p \<and> p - m < length x. h ! m * x ! (p - m))"
  by (rule sum.reindex_bij_witness [where i = "\<lambda>m. p - m" and j = "\<lambda>n. p - n"])
     (auto simp: mult.commute)

lemma convolve_loops_commute:
  fixes x h y :: "'a::comm_semiring_0 list"
  assumes "1 \<le> N" and "1 \<le> M"
    and "int (length x) = N" and "int (length h) = M" and "int (length y) = N + M - 1"
  shows "convolve_loops x N h M y (N + M - 1) = convolve_loops h M x N y (M + N - 1)"
proof -
  from convolve_loops_sum_aux [OF assms]
  obtain y1 where y1: "convolve_loops x N h M y (N + M - 1) = Inr y1" "int (length y1) = N + M - 1"
    "\<forall>p<length y1. y1 ! p = (\<Sum>n | n < length x \<and> n \<le> p \<and> p - n < length h. x ! n * h ! (p - n))"
    by blast
  have l: "int (length y) = M + N - 1" using assms(5) by simp
  from convolve_loops_sum_aux [OF assms(2,1,4,3) l]
  obtain y2 where y2: "convolve_loops h M x N y (M + N - 1) = Inr y2" "int (length y2) = M + N - 1"
    "\<forall>p<length y2. y2 ! p = (\<Sum>m | m < length h \<and> m \<le> p \<and> p - m < length x. h ! m * x ! (p - m))"
    by blast
  have "y1 = y2"
  proof (rule nth_equalityI)
    show "length y1 = length y2" using y1(2) y2(2) by simp
  next
    fix p assume "p < length y1"
    then show "y1 ! p = y2 ! p"
      using y1(2,3) y2(2,3) convolution_sum_commute [where x = x and h = h] by simp
  qed
  then show ?thesis using y1(1) y2(1) by simp
qed

lemma largest_loop_Inr:
  "P \<le> int (length y) \<Longrightarrow> \<exists>r. largest_loop y P p highest lowest = Inr r"
proof (induction y P p highest lowest rule: largest_loop.induct)
  case (1 y P p highest lowest)
  show ?case
  proof (cases "int p < P")
    case False
    then show ?thesis by (subst largest_loop.simps) simp
  next
    case True
    with "1.prems" have pl: "p < length y" by linarith
    show ?thesis
      using "1.IH" [OF True pl] "1.prems" True pl
      by (subst largest_loop.simps) auto
  qed
qed

lemma length_nudge [simp]: "length (nudge y p) = length y"
  by (simp add: nudge_def)

lemma scale_loop_in_bounds:
  "P \<le> int (length y) \<Longrightarrow> scale_loop largest P p y \<noteq> Inl Out_Of_Bounds"
proof (induction largest P p y rule: scale_loop.induct)
  case (1 largest P p y)
  show ?case
  proof (cases "int p < P")
    case False
    then show ?thesis by (subst scale_loop.simps) simp
  next
    case True
    with "1.prems" have pl: "p < length y" by linarith
    show ?thesis
    proof (cases "fdiv (y ! p) largest")
      case (Inl e)
      then have "e \<noteq> Out_Of_Bounds" by (auto simp: fdiv_def split: if_splits)
      then show ?thesis using True pl Inl by (subst scale_loop.simps) simp
    next
      case (Inr q)
      from "1.IH" [OF True pl Inr] "1.prems"
      show ?thesis using True pl Inr by (subst scale_loop.simps) simp
    qed
  qed
qed

lemma scaleValues_in_bounds:
  "P \<le> int (length y) \<Longrightarrow> scaleValuesToRangeOfPlusMinus1 y P \<noteq> Inl Out_Of_Bounds"
  using largest_loop_Inr [of P y 0 "- 9999999" 9999999] scale_loop_in_bounds [of P y _ 0]
  by (auto simp: scaleValuesToRangeOfPlusMinus1_def largestSampleIn_def split: sum.splits prod.splits)

subsection \<open>largestSampleIn and the scaling loop\<close>

lemma largest_loop_foldl:
  "P \<le> int (length y) \<Longrightarrow>
   largest_loop y P p highest lowest =
     Inr (foldl track (highest, lowest) (drop p (take (nat P) y)))"
proof (induction y P p highest lowest rule: largest_loop.induct)
  case (1 y P p highest lowest)
  show ?case
  proof (cases "int p < P")
    case False
    then have "drop p (take (nat P) y) = []" by simp
    with False show ?thesis by (subst largest_loop.simps) simp
  next
    case True
    with "1.prems" have pl: "p < length y" by linarith
    have d: "drop p (take (nat P) y) = y ! p # drop (p + 1) (take (nat P) y)"
      using True pl by (simp add: Cons_nth_drop_Suc [symmetric])
    show ?thesis
      using "1.IH" [OF True pl] "1.prems" True pl
      by (subst largest_loop.simps) (simp add: d)
  qed
qed

lemma fst_foldl_track:
  "fst (foldl track (hi, lo) vs) = Max (insert hi (set vs))"
proof (induction vs arbitrary: hi lo)
  case Nil
  show ?case by simp
next
  case (Cons v vs)
  have "Max (insert hi (set (v # vs))) = Max (insert (max hi v) (set vs))"
    by (cases "vs = []") (simp_all add: max.assoc max.commute max.left_commute)
  then show ?case
    using Cons.IH [of v lo] Cons.IH [of hi v] Cons.IH [of hi lo]
    by (auto simp: max_def)
qed

lemma snd_foldl_track_unchanged:
  "\<forall>u\<in>set vs. lo \<le> u \<Longrightarrow> snd (foldl track (hi, lo) vs) = lo"
  by (induction vs arbitrary: hi) auto

lemma snd_foldl_track:
  "vs \<noteq> [] \<Longrightarrow> Min (set vs) \<le> hi \<Longrightarrow>
   snd (foldl track (hi, lo) vs) = min lo (Min (set vs))"
proof (induction vs arbitrary: hi lo)
  case Nil
  then show ?case by simp
next
  case (Cons v vs)
  show ?case
  proof (cases "vs = []")
    case True
    with Cons.prems show ?thesis by (auto simp: min_def)
  next
    case False
    let ?m = "Min (set vs)"
    have m: "Min (set (v # vs)) = min v ?m" using False by simp
    show ?thesis
    proof (cases "?m \<le> v")
      case True
      then have mhi: "?m \<le> hi" using Cons.prems(2) m by (simp add: min_def split: if_splits)
      show ?thesis
      proof (cases "v > hi")
        case True
        then have "?m \<le> v" using mhi by simp
        have "min v ?m = ?m" using \<open>?m \<le> v\<close> by simp
        with Cons.IH [OF False \<open>?m \<le> v\<close>, of lo] True show ?thesis
          unfolding m by simp
      next
        case nh: False
        show ?thesis
        proof (cases "v < lo")
          case True
          have "min v ?m = ?m" "min lo ?m = ?m" using \<open>?m \<le> v\<close> True by simp_all
          with Cons.IH [OF \<open>vs \<noteq> []\<close> mhi, of v] nh True show ?thesis
            unfolding m by simp
        next
          case False
          have "min v ?m = ?m" using \<open>?m \<le> v\<close> by simp
          with Cons.IH [OF \<open>vs \<noteq> []\<close> mhi, of lo] nh False show ?thesis
            unfolding m by simp
        qed
      qed
    next
      case gt: False
      then have vhi: "v \<le> hi" using Cons.prems(2) m by (simp add: min_def split: if_splits)
      have all: "\<forall>u\<in>set vs. min lo v \<le> u"
      proof
        fix u assume "u \<in> set vs"
        then have "?m \<le> u" by simp
        with gt show "min lo v \<le> u" by (simp add: min_def)
      qed
      have t: "track (hi, lo) v = (hi, min lo v)"
        using vhi by (auto simp: min_def)
      have "min v ?m = v" using gt by simp
      then show ?thesis
        using snd_foldl_track_unchanged [OF all, of hi]
        unfolding m by (simp only: foldl_Cons t)
    qed
  qed
qed

lemma largestSampleIn_Max_Min:
  fixes y :: "'a::linordered_field list"
  assumes "\<forall>v\<in>set y. \<bar>v\<bar> \<le> 9999999" and "Min (set y) \<in> set (tl y)"
  shows "largestSampleIn y (int (length y)) =
           Inr (if Max (set y) > \<bar>Min (set y)\<bar> then Max (set y) + 1 / 1000000
                else \<bar>Min (set y)\<bar>)"
proof -
  from assms(2) have "y \<noteq> []" "tl y \<noteq> []" by auto
  then obtain v0 vs where y: "y = v0 # vs" and vs: "vs \<noteq> []"
    by (cases y) simp_all
  have in_vs: "Min (set y) \<in> set vs" using assms(2) y by simp
  have "Min (set y) \<le> Min (set vs)" using y vs by simp
  moreover have "Min (set vs) \<le> Min (set y)" using in_vs by simp
  ultimately have mvs: "Min (set y) = Min (set vs)" by simp
  have le0: "Min (set vs) \<le> v0" using mvs [symmetric] y by simp
  have bnd: "\<And>v. v \<in> set y \<Longrightarrow> - 9999999 \<le> v \<and> v \<le> 9999999"
    using assms(1) by (fastforce simp: abs_le_iff)
  have "v0 \<le> Max (set y)" unfolding y by (rule Max_ge) simp_all
  moreover have "- 9999999 \<le> v0" using bnd [of v0] y by simp
  ultimately have "- 9999999 \<le> Max (set y)" by (rule order_trans [rotated])
  then have hi: "Max (insert (- 9999999) (set y)) = Max (set y)"
    using \<open>y \<noteq> []\<close> by (simp add: max_def)
  have mS: "Min (set vs) \<le> 9999999" using le0 bnd [of v0] y by simp
  have lo: "snd (foldl track (- 9999999, 9999999) y) = Min (set y)"
  proof (cases "v0 > - 9999999")
    case True
    then have "track (- 9999999, 9999999) v0 = (v0, 9999999)" by simp
    then have "snd (foldl track (- 9999999, 9999999) y) = snd (foldl track (v0, 9999999) vs)"
      unfolding y by (simp only: foldl_Cons)
    also have "\<dots> = min 9999999 (Min (set vs))" by (rule snd_foldl_track [OF vs le0])
    also have "\<dots> = Min (set y)" using mS mvs by (simp add: min_def)
    finally show ?thesis .
  next
    case False
    then have v0: "v0 = - 9999999" using bnd [of v0] y by simp
    then have "track (- 9999999, 9999999) v0 = (v0, v0)" by simp
    then have "snd (foldl track (- 9999999, 9999999) y) = snd (foldl track (v0, v0) vs)"
      unfolding y by (simp only: foldl_Cons)
    also have "\<dots> = min v0 (Min (set vs))" by (rule snd_foldl_track [OF vs le0])
    also have "\<dots> = Min (set y)" using le0 mvs by (simp add: min_def)
    finally show ?thesis .
  qed
  have ll: "largest_loop y (int (length y)) 0 (- 9999999) 9999999 =
          Inr (foldl track (- 9999999, 9999999) y)"
    by (subst largest_loop_foldl) simp_all
  obtain a b where ab: "foldl track (- 9999999, 9999999) y = (a, b)" by (cases "foldl track (- 9999999, 9999999) y")
  have "a = Max (set y)" using fst_foldl_track [of "- 9999999" 9999999 y] hi ab by simp
  moreover have "b = Min (set y)" using lo ab by simp
  ultimately show ?thesis
    by (simp add: largestSampleIn_def ll ab)
qed

lemma scale_loop_nth:
  "largest \<noteq> 0 \<Longrightarrow> P \<le> int (length y) \<Longrightarrow>
   \<exists>y'. scale_loop largest P p y = Inr y' \<and> length y' = length y \<and>
        (\<forall>k<length y. y' ! k = (if p \<le> k \<and> int k < P then adjust (y ! k / largest) else y ! k))"
proof (induction largest P p y rule: scale_loop.induct)
  case (1 largest P p y)
  show ?case
  proof (cases "int p < P")
    case False
    then show ?thesis by (subst scale_loop.simps) auto
  next
    case True
    with "1.prems" have pl: "p < length y" by linarith
    have q: "fdiv (y ! p) largest = Inr (y ! p / largest)"
      using "1.prems"(1) by (simp add: fdiv_def)
    let ?y1 = "nudge (y[p := y ! p / largest]) p"
    have y1: "?y1 = y[p := adjust (y ! p / largest)]"
      using pl by (simp add: nudge_def adjust_def)
    from "1.IH" [OF True pl q] "1.prems"
    obtain y' where y': "scale_loop largest P (p + 1) ?y1 = Inr y'" "length y' = length y"
      "\<forall>k<length y. y' ! k =
          (if p + 1 \<le> k \<and> int k < P then adjust (?y1 ! k / largest) else ?y1 ! k)"
      by auto
    have "scale_loop largest P p y = Inr y'"
      using True pl q y'(1) by (subst scale_loop.simps) simp
    moreover have "\<forall>k<length y. y' ! k =
          (if p \<le> k \<and> int k < P then adjust (y ! k / largest) else y ! k)"
      using y'(3) True pl unfolding y1 by (auto simp: nth_list_update)
    ultimately show ?thesis using y'(2) by blast
  qed
qed

lemma scaleValues_map:
  fixes y :: "'a::linordered_field list"
  assumes "largestSampleIn y (int (length y)) = Inr L" and "L \<noteq> 0"
  shows "scaleValuesToRangeOfPlusMinus1 y (int (length y)) = Inr (map (\<lambda>v. adjust (v / L)) y)"
proof -
  from scale_loop_nth [OF assms(2), of "int (length y)" y 0]
  obtain y' where y': "scale_loop L (int (length y)) 0 y = Inr y'" "length y' = length y"
    "\<forall>k<length y. y' ! k = adjust (y ! k / L)"
    by auto
  have "y' = map (\<lambda>v. adjust (v / L)) y"
    using y'(2,3) by (intro nth_equalityI) simp_all
  then show ?thesis
    using y'(1) assms(1) by (simp add: scaleValuesToRangeOfPlusMinus1_def)
qed

subsection \<open>Conversion of samples\<close>

lemma truncate_of_int [simp]: "truncate_toward_zero (of_int k) = k"
  by (simp add: truncate_toward_zero_def)

lemma toInt_toFloat: "toInt (toFloat s :: 'a::floor_ceiling) = s"
proof -
  have "(toFloat s :: 'a) * 32768 = of_int (sint s)"
    unfolding toFloat_def by (simp del: of_int_sint)
  then have "truncate_toward_zero ((toFloat s :: 'a) * 32768) = sint s"
    by (simp only: truncate_of_int)
  then show ?thesis by (simp add: toInt_def)
qed

lemma toFloat_dyadic:
  "\<exists>m::int. \<bar>m\<bar> \<le> 2 ^ 15 \<and> (toFloat s :: 'a::floor_ceiling) = of_int m / 2 ^ 15"
proof -
  have "- (2 ^ 15) \<le> sint s" "sint s < 2 ^ 15"
    using sint_ge [of s] sint_lt [of s] by simp_all
  then have "\<bar>sint s\<bar> \<le> 2 ^ 15" by simp
  then show ?thesis by (intro exI [of _ "sint s"]) (simp add: toFloat_def del: of_int_sint)
qed

subsection \<open>The search for the data tag\<close>

lemma fread_1:
  "fread 1 f = (take 1 (rest f), f\<lparr>position := position f + length (take 1 (rest f))\<rparr>)"
  by (simp add: fread_def rest_def Let_def)

lemma rest_advance:
  "rest (f\<lparr>position := position f + length (take 1 (rest f))\<rparr>) = drop 1 (rest f)"
proof -
  have "rest (f\<lparr>position := position f + length (take 1 (rest f))\<rparr>) =
        drop (length (take 1 (rest f))) (rest f)"
    by (simp add: rest_def add.commute)
  also have "\<dots> = drop 1 (rest f)" by (cases "rest f") simp_all
  finally show ?thesis .
qed

lemma tag_for_loop_for_list:
  "tag_for_loop i (ident, f) = (ident', f') \<Longrightarrow>
   for_list i ident (rest f) = (ident', rest f') \<and> contents f' = contents f"
proof (induction i "(ident, f)" arbitrary: ident f rule: tag_for_loop.induct)
  case (1 i ident fl)
  show ?case
  proof (cases "i < 4")
    case False
    with "1.prems" show ?thesis
      by (simp add: tag_for_loop.simps for_list.simps)
  next
    case True
    let ?bs = "take 1 (rest fl)"
    let ?file' = "fl\<lparr>position := position fl + length ?bs\<rparr>"
    let ?ident' = "case ?bs of [c] \<Rightarrow> update4 ident i c | _ \<Rightarrow> ident"
    have id': "?ident' = (case rest fl of [] \<Rightarrow> ident | c # _ \<Rightarrow> update4 ident i c)"
      by (cases "rest fl") simp_all
    have step: "tag_for_loop i (ident, fl) =
        (if index4 ?ident' i \<noteq> data_tag ! i then (?ident', ?file')
         else tag_for_loop (i + 1) (?ident', ?file'))"
      by (subst tag_for_loop.simps, simp only: True if_True fread_1 Let_def prod.case)
    have lstep: "for_list i ident (rest fl) =
        (if index4 ?ident' i \<noteq> data_tag ! i then (?ident', drop 1 (rest fl))
         else for_list (i + 1) ?ident' (drop 1 (rest fl)))"
      by (subst for_list.simps, simp only: True if_True Let_def id')
    show ?thesis
    proof (cases "index4 ?ident' i \<noteq> data_tag ! i")
      case brk: True
      with "1.prems" step have e: "ident' = ?ident'" "f' = ?file'" by simp_all
      show ?thesis
        unfolding lstep e using brk rest_advance [of fl] by simp
    next
      case cont: False
      with "1.prems" step have r: "tag_for_loop (i + 1) (?ident', ?file') = (ident', f')"
        by simp
      from "1.hyps" [OF True refl fread_1 [symmetric] refl cont r]
      have ih: "for_list (i + 1) ?ident' (rest ?file') = (ident', rest f')"
        "contents f' = contents ?file'" by simp_all
      show ?thesis
        unfolding lstep using cont ih rest_advance [of fl] by simp
    qed
  qed
qed

lemma index4_simps:
  "index4 (a, b, c, d) 0 = a" "index4 (a, b, c, d) (Suc 0) = b"
  "index4 (a, b, c, d) (Suc (Suc 0)) = c" "index4 (a, b, c, d) (Suc (Suc (Suc 0))) = d"
  by (simp_all add: index4_def)

lemma update4_simps:
  "update4 (a, b, c, d) 0 v = (v, b, c, d)"
  "update4 (a, b, c, d) (Suc 0) v = (a, v, c, d)"
  "update4 (a, b, c, d) (Suc (Suc 0)) v = (a, b, v, d)"
  "update4 (a, b, c, d) (Suc (Suc (Suc 0))) v = (a, b, c, v)"
  by (simp_all add: update4_def char4_of_list_def eval_nat_numeral)

lemma data_tag_bytes: "data_tag = [100, 97, 116, 97]"
  by (simp add: data_tag_def)

lemma data_tag_nth:
  "data_tag ! 0 = 100" "data_tag ! Suc 0 = 97" "data_tag ! Suc (Suc 0) = 116"
  "data_tag ! Suc (Suc (Suc 0)) = 97"
  by (simp_all add: data_tag_bytes)

lemma is_data_iff: "is_data (a, b, c, d) \<longleftrightarrow> a = 100 \<and> b = 97 \<and> c = 116 \<and> d = 97"
  by (simp add: is_data_def index4_simps eval_nat_numeral)

lemma for_list_end: "for_list (Suc (Suc (Suc (Suc 0)))) ident r = (ident, r)"
  by (subst for_list.simps) simp

lemma for_list_Nil:
  "i < 4 \<Longrightarrow> for_list i ident [] =
     (if index4 ident i \<noteq> data_tag ! i then (ident, []) else for_list (Suc i) ident [])"
  by (subst for_list.simps) simp

lemma for_list_Cons:
  "i < 4 \<Longrightarrow> for_list i ident (c # r) =
     (if index4 (update4 ident i c) i \<noteq> data_tag ! i then (update4 ident i c, r)
      else for_list (Suc i) (update4 ident i c) r)"
  by (subst for_list.simps) simp

lemmas for_list_unroll =
  for_list_end for_list_Nil for_list_Cons index4_simps update4_simps data_tag_nth is_data_iff

lemma for_list_drop:
  "for_list i ident r = (ident', r') \<Longrightarrow> \<exists>k. r' = drop k r"
proof (induction i ident r rule: for_list.induct)
  case (1 i ident r)
  show ?case
  proof (cases "i < 4")
    case False
    with "1.prems" have "r' = drop 0 r" by (simp add: for_list.simps)
    then show ?thesis by blast
  next
    case True
    let ?ident' = "case r of [] \<Rightarrow> ident | c # _ \<Rightarrow> update4 ident i c"
    have lstep: "for_list i ident r =
        (if index4 ?ident' i \<noteq> data_tag ! i then (?ident', drop 1 r)
         else for_list (i + 1) ?ident' (drop 1 r))"
      by (subst for_list.simps, simp only: True if_True Let_def)
    show ?thesis
    proof (cases "index4 ?ident' i \<noteq> data_tag ! i")
      case True
      with "1.prems" lstep have "r' = drop 1 r" by simp
      then show ?thesis by blast
    next
      case False
      with "1.prems" lstep have "for_list (i + 1) ?ident' (drop 1 r) = (ident', r')" by simp
      from "1.IH" [OF True refl False this] obtain k where "r' = drop k (drop 1 r)" by blast
      then have "r' = drop (k + 1) r" by simp
      then show ?thesis by blast
    qed
  qed
qed

lemma for_list_match:
  assumes "\<not> is_data ident" and "for_list 0 ident r = (ident', r')" and "is_data ident'"
  shows "prefix data_tag r \<or> (r \<noteq> [] \<and> length r < 4 \<and> prefix r data_tag)"
proof -
  obtain a b c d where ident: "ident = (a, b, c, d)" by (cases ident) auto
  consider "r = []" | b0 where "r = [b0]" | b0 b1 where "r = [b0, b1]"
    | b0 b1 b2 where "r = [b0, b1, b2]" | b0 b1 b2 b3 more where "r = b0 # b1 # b2 # b3 # more"
    by (cases r; cases "tl r"; cases "tl (tl r)"; cases "tl (tl (tl r))") auto
  then show ?thesis
  proof cases
    case 1
    with assms show ?thesis unfolding ident
      by (auto simp: for_list_unroll split: if_splits)
  next
    case 2
    with assms show ?thesis unfolding ident
      by (auto simp: for_list_unroll data_tag_bytes split: if_splits)
  next
    case 3
    with assms show ?thesis unfolding ident
      by (auto simp: for_list_unroll data_tag_bytes split: if_splits)
  next
    case 4
    with assms show ?thesis unfolding ident
      by (auto simp: for_list_unroll data_tag_bytes split: if_splits)
  next
    case 5
    with assms show ?thesis unfolding ident
      by (auto simp: for_list_unroll data_tag_bytes split: if_splits)
  qed
qed

lemma ends_in_partial_tag_drop:
  "ends_in_partial_tag (drop k r) \<Longrightarrow> ends_in_partial_tag r"
  unfolding ends_in_partial_tag_def
  using suffix_drop [of k r] suffix_order.order_trans by blast

lemma sublist_drop_tag: "sublist data_tag (drop k r) \<Longrightarrow> sublist data_tag r"
  using sublist_drop [of k r] sublist_order.order_trans by blast

lemma short_prefix_partial:
  assumes "r \<noteq> []" and "length r < 4" and "prefix r data_tag"
  shows "ends_in_partial_tag r"
proof -
  from assms(3) have r: "r = take (length r) data_tag"
    by (metis append_eq_conv_conj prefixE)
  from assms(1) have "0 < length r" by simp
  with assms(2) have "length r = 1 \<or> length r = 2 \<or> length r = 3"
    by arith
  then show ?thesis
    unfolding ends_in_partial_tag_def using r by (metis suffix_order.order_refl)
qed

lemma tag_for_loop_reachable:
  assumes "\<not> is_data (fst s)" and "tag_reachable (tag_for_loop 0 s)"
  shows "tag_reachable s"
proof -
  obtain ident f where s: "s = (ident, f)" by (cases s)
  obtain ident' f' where l: "tag_for_loop 0 (ident, f) = (ident', f')"
    by (cases "tag_for_loop 0 (ident, f)")
  from tag_for_loop_for_list [OF l]
  have fl: "for_list 0 ident (rest f) = (ident', rest f')" by simp
  from for_list_drop [OF fl] obtain k where k: "rest f' = drop k (rest f)" by blast
  from assms(2) have "is_data ident' \<or> sublist data_tag (rest f') \<or> ends_in_partial_tag (rest f')"
    by (simp add: tag_reachable_def s l)
  then have "sublist data_tag (rest f) \<or> ends_in_partial_tag (rest f)"
  proof (elim disjE)
    assume "is_data ident'"
    from for_list_match [OF _ fl this] assms(1) s
    have "prefix data_tag (rest f) \<or> (rest f \<noteq> [] \<and> length (rest f) < 4 \<and> prefix (rest f) data_tag)"
      by simp
    then show ?thesis using short_prefix_partial by blast
  next
    assume "sublist data_tag (rest f')"
    then show ?thesis using sublist_drop_tag k by simp
  next
    assume "ends_in_partial_tag (rest f')"
    then show ?thesis using ends_in_partial_tag_drop k by simp
  qed
  then show ?thesis by (simp add: tag_reachable_def s)
qed

lemma tag_while_Some_reachable:
  assumes "tag_while s = Some r"
  shows "tag_reachable s"
proof -
  have "(\<lambda>s r. tag_reachable s) s r"
  proof (rule tag_while.raw_induct [where P = "\<lambda>s r. tag_reachable s", OF _ assms])
    fix tw :: "char4 \<times> FILE \<Rightarrow> (char4 \<times> FILE) option" and s r
    assume IH: "\<And>x y. tw x = Some y \<Longrightarrow> tag_reachable x"
      and eq: "(if \<not> is_data (fst s) then tw (tag_for_loop 0 s) else Some s) = Some r"
    show "tag_reachable s"
    proof (cases "is_data (fst s)")
      case True
      then show ?thesis by (simp add: tag_reachable_def)
    next
      case False
      with eq have "tw (tag_for_loop 0 s) = Some r" by simp
      then have "tag_reachable (tag_for_loop 0 s)" by (rule IH)
      with False show ?thesis by (rule tag_for_loop_reachable)
    qed
  qed
  then show ?thesis .
qed

lemma tag_while_None:
  assumes "\<not> is_data ident" and "\<not> sublist data_tag (rest f)"
    and "\<not> ends_in_partial_tag (rest f)"
  shows "tag_while (ident, f) = None"
proof (cases "tag_while (ident, f)")
  case None
  then show ?thesis .
next
  case (Some r)
  then have "tag_reachable (ident, f)" by (rule tag_while_Some_reachable)
  with assms show ?thesis by (simp add: tag_reachable_def)
qed

lemma tag_for_loop_position:
  "tag_for_loop i (ident, f) = (ident', f') \<Longrightarrow>
   f' = f\<lparr>position := position f + (length (rest f) - length (rest f'))\<rparr>"
proof (induction i "(ident, f)" arbitrary: ident f rule: tag_for_loop.induct)
  case (1 i ident fl)
  show ?case
  proof (cases "i < 4")
    case False
    with "1.prems" show ?thesis
      by (simp add: tag_for_loop.simps)
  next
    case True
    let ?bs = "take 1 (rest fl)"
    let ?file' = "fl\<lparr>position := position fl + length ?bs\<rparr>"
    let ?ident' = "case ?bs of [c] \<Rightarrow> update4 ident i c | _ \<Rightarrow> ident"
    have step: "tag_for_loop i (ident, fl) =
        (if index4 ?ident' i \<noteq> data_tag ! i then (?ident', ?file')
         else tag_for_loop (i + 1) (?ident', ?file'))"
      by (subst tag_for_loop.simps, simp only: True if_True fread_1 Let_def prod.case)
    have len: "length (rest fl) - length (drop 1 (rest fl)) = length ?bs"
      by (cases "rest fl") simp_all
    show ?thesis
    proof (cases "index4 ?ident' i \<noteq> data_tag ! i")
      case brk: True
      with "1.prems" step have e: "f' = ?file'" by simp
      show ?thesis
        unfolding e rest_advance len by simp
    next
      case cont: False
      with "1.prems" step have r: "tag_for_loop (i + 1) (?ident', ?file') = (ident', f')"
        by simp
      from "1.hyps" [OF True refl fread_1 [symmetric] refl cont r]
      have ih: "f' = ?file'\<lparr>position := position ?file' + (length (rest ?file') - length (rest f'))\<rparr>" .
      from tag_for_loop_for_list [OF r] for_list_drop
      obtain k where k: "rest f' = drop k (rest ?file')" by blast
      have "length (rest fl) - length (rest f') =
            length ?bs + (length (rest ?file') - length (rest f'))"
        unfolding k rest_advance by (cases "rest fl") auto
      then show ?thesis by (subst ih) simp
    qed
  qed
qed

lemma tag_for_loop_eq:
  "tag_for_loop i (ident, f) =
     (fst (for_list i ident (rest f)),
      f\<lparr>position := position f + (length (rest f) - length (snd (for_list i ident (rest f))))\<rparr>)"
proof -
  obtain ident' f' where l: "tag_for_loop i (ident, f) = (ident', f')"
    by (cases "tag_for_loop i (ident, f)")
  from tag_for_loop_for_list [OF l] tag_for_loop_position [OF l] l
  show ?thesis by simp
qed

lemma tag_while_unfold:
  "\<not> is_data (fst s) \<Longrightarrow> tag_while s = tag_while (tag_for_loop 0 s)"
  "is_data (fst s) \<Longrightarrow> tag_while s = Some s"
  by (subst tag_while.simps, simp)+

lemma tag_for_loop_skip:
  assumes "rest f = c # r" and "c \<noteq> 100"
  shows "tag_for_loop 0 (ident, f) = (update4 ident 0 c, f\<lparr>position := position f + 1\<rparr>)"
proof -
  obtain a b c' d where ident: "ident = (a, b, c', d)" by (cases ident) auto
  have "for_list 0 ident (c # r) = (update4 ident 0 c, r)"
    using assms(2) unfolding ident by (simp add: for_list_unroll)
  then show ?thesis by (simp add: tag_for_loop_eq assms(1))
qed

lemma tag_for_loop_match:
  assumes "rest f = data_tag @ post"
  shows "tag_for_loop 0 (ident, f) = ((100, 97, 116, 97), f\<lparr>position := position f + 4\<rparr>)"
proof -
  obtain a b c d where ident: "ident = (a, b, c, d)" by (cases ident) auto
  have "for_list 0 ident (data_tag @ post) = ((100, 97, 116, 97), post)"
    unfolding ident by (simp add: data_tag_bytes for_list_unroll)
  then show ?thesis by (simp add: tag_for_loop_eq assms data_tag_bytes)
qed

lemma not_is_data_update4: "c \<noteq> 100 \<Longrightarrow> \<not> is_data (update4 ident 0 c)"
  by (cases ident) (auto simp: for_list_unroll)

lemma rest_Cons_advance:
  "rest f = c # r \<Longrightarrow> rest (f\<lparr>position := position f + 1\<rparr>) = r"
  using rest_advance [of f] by simp

lemma tag_while_skip:
  "pre \<noteq> [] \<Longrightarrow> 100 \<notin> set pre \<Longrightarrow> rest f = pre @ r \<Longrightarrow> \<not> is_data ident \<Longrightarrow>
   tag_while (ident, f) =
     tag_while (update4 ident 0 (last pre), f\<lparr>position := position f + length pre\<rparr>)"
proof (induction pre arbitrary: ident f)
  case Nil
  then show ?case by simp
next
  case (Cons c pre)
  from Cons.prems have c: "c \<noteq> 100" and r: "rest f = c # (pre @ r)" by auto
  let ?f1 = "f\<lparr>position := position f + 1\<rparr>"
  have one: "tag_while (ident, f) = tag_while (update4 ident 0 c, ?f1)"
    using tag_while_unfold(1) [of "(ident, f)"] Cons.prems(4) tag_for_loop_skip [OF r c]
    by simp
  show ?case
  proof (cases "pre = []")
    case True
    with one show ?thesis by simp
  next
    case False
    have "rest ?f1 = pre @ r" using rest_Cons_advance [OF r] .
    from Cons.IH [OF False _ this not_is_data_update4 [OF c]] Cons.prems(2)
    have "tag_while (update4 ident 0 c, ?f1) =
          tag_while (update4 (update4 ident 0 c) 0 (last pre),
                     ?f1\<lparr>position := position ?f1 + length pre\<rparr>)"
      by simp
    moreover have "update4 (update4 ident 0 c) 0 (last pre) = update4 ident 0 (last pre)"
      by (cases ident) (simp add: update4_simps)
    ultimately show ?thesis using one False by (simp add: add.assoc)
  qed
qed

lemma tag_while_finds_tag:
  assumes "rest f = pre @ data_tag @ post" and "100 \<notin> set pre" and "\<not> is_data ident"
  shows "tag_while (ident, f) =
           Some ((100, 97, 116, 97), f\<lparr>position := position f + length pre + 4\<rparr>)"
proof -
  have found: "tag_while (i, g) = Some ((100, 97, 116, 97), g\<lparr>position := position g + 4\<rparr>)"
    if "rest g = data_tag @ post" and "\<not> is_data i" for i g
  proof -
    have "tag_while (i, g) = tag_while ((100, 97, 116, 97), g\<lparr>position := position g + 4\<rparr>)"
      using tag_while_unfold(1) [of "(i, g)"] that tag_for_loop_match [OF that(1)] by simp
    also have "\<dots> = Some ((100, 97, 116, 97), g\<lparr>position := position g + 4\<rparr>)"
      by (rule tag_while_unfold(2)) (simp add: is_data_iff)
    finally show ?thesis .
  qed
  show ?thesis
  proof (cases "pre = []")
    case True
    with found [of f ident] assms show ?thesis by simp
  next
    case False
    let ?g = "f\<lparr>position := position f + length pre\<rparr>"
    have "rest ?g = data_tag @ post"
      using assms(1) by (simp add: rest_def add.commute drop_drop [symmetric])
    moreover have "\<not> is_data (update4 ident 0 (last pre))"
      using assms(2) False by (intro not_is_data_update4) (metis last_in_set)
    ultimately show ?thesis
      using tag_while_skip [OF False assms(2,1,3)] found [of ?g] by simp
  qed
qed

subsection \<open>The whole search, and the files of the examples\<close>

lemma ensure_None_sample:
  "tag_while (subchunk2_id (header_sample f), sample_file f) = None \<Longrightarrow>
   ensureSubchunk2_idIsSetProperly f = None"
  by (simp add: ensureSubchunk2_idIsSetProperly_def)

lemma ensure_None_impulse:
  "tag_while (subchunk2_id (header_impulse f), impulse_file f) = None \<Longrightarrow>
   ensureSubchunk2_idIsSetProperly f = None"
  by (simp add: ensureSubchunk2_idIsSetProperly_def split: option.splits)

lemma tag_while_None_iff_reachable:
  "\<not> tag_reachable (ident, f) \<Longrightarrow> tag_while (ident, f) = None"
  by (rule tag_while_None) (simp_all add: tag_reachable_def)



subsection \<open>An empty result\<close>








lemma scaleValues_fault_iff:
  fixes y :: "'a::linordered_field list"
  assumes "P \<le> int (length y)"
  shows "(\<exists>e. scaleValuesToRangeOfPlusMinus1 y P = Inl e) \<longleftrightarrow>
         1 \<le> P \<and> largestSampleIn y P = Inr 0"
proof -
  from largest_loop_Inr [OF assms, of 0 "- 9999999" 9999999]
  obtain L where L: "largestSampleIn y P = Inr L"
    by (auto simp: largestSampleIn_def split: prod.splits)
  show ?thesis
  proof (cases "L = 0")
    case False
    from scale_loop_nth [OF False assms, of 0]
    have "\<exists>y'. scale_loop L P 0 y = Inr y'" by blast
    then show ?thesis using L False by (auto simp: scaleValuesToRangeOfPlusMinus1_def)
  next
    case True
    show ?thesis
    proof (cases "1 \<le> P")
      case False
      then have "scale_loop L P 0 y = Inr y" by (subst scale_loop.simps) simp
      then show ?thesis using L False by (simp add: scaleValuesToRangeOfPlusMinus1_def)
    next
      case P: True
      with assms have "0 < length y" by linarith
      then have "\<exists>e. scale_loop 0 P 0 y = Inl e"
        using P by (subst scale_loop.simps) (simp add: fdiv_def)
      then show ?thesis using L True P by (simp add: scaleValuesToRangeOfPlusMinus1_def)
    qed
  qed
qed


subsection \<open>The range of the scaled samples\<close>

lemma adjust_le:
  fixes q :: "'a::linordered_field"
  assumes "q \<le> 1"
  shows "adjust q \<le> 999999 / 1000000"
proof (cases "q > 999999 / 1000000")
  case True
  have "q - 1 / 1000000 \<le> 1 - 1 / 1000000" using assms by simp
  also have "\<dots> = 999999 / 1000000" by simp
  finally show ?thesis using True by (simp only: adjust_def if_True)
next
  case False
  then have "adjust q = q" by (simp only: adjust_def if_False)
  with False show ?thesis by (simp only: not_less)
qed

lemma scaled_samples_below_one:
  fixes y :: "'a::linordered_field list"
  assumes "scaleValuesToRangeOfPlusMinus1 y (int (length y)) = Inr y'" and "k < length y"
  shows "y' ! k \<le> 999999 / 1000000"
proof -
  let ?P = "int (length y)"
  obtain hi lo where hl: "foldl track (- 9999999, 9999999) y = (hi, lo)"
    by (cases "foldl track (- 9999999, 9999999) y")
  have ll: "largest_loop y ?P 0 (- 9999999) 9999999 = Inr (hi, lo)"
    by (subst largest_loop_foldl) (simp_all add: hl)
  define L where "L = (if hi > \<bar>lo\<bar> then hi + 1 / 1000000 else \<bar>lo\<bar>)"
  have L: "largestSampleIn y ?P = Inr L" by (simp add: largestSampleIn_def ll L_def)
  have P1: "1 \<le> ?P" using assms(2) by simp
  have "L \<noteq> 0"
  proof
    assume "L = 0"
    with L have "largestSampleIn y ?P = Inr 0" by simp
    with P1 have "\<exists>e. scaleValuesToRangeOfPlusMinus1 y ?P = Inl e"
      using scaleValues_fault_iff [of ?P y] by simp
    with assms(1) show False by simp
  qed
  moreover have "0 \<le> L" using abs_ge_zero [of lo] by (simp add: L_def)
  ultimately have pos: "0 < L" by simp
  have "hi = Max (insert (- 9999999) (set y))"
    using fst_foldl_track [of "- 9999999" 9999999 y] hl by simp
  then have "y ! k \<le> hi" using assms(2) by simp
  moreover have "hi \<le> L" by (simp add: L_def)
  ultimately have "y ! k \<le> L" by (rule order_trans)
  then have q: "y ! k / L \<le> 1" using pos by (simp add: divide_le_eq_1)
  from scaleValues_map [OF L \<open>L \<noteq> 0\<close>] assms(1)
  have "y' = map (\<lambda>v. adjust (v / L)) y" by simp
  then have "y' ! k = adjust (y ! k / L)" using assms(2) by simp
  also have "\<dots> \<le> 999999 / 1000000" using q by (rule adjust_le)
  finally show ?thesis .
qed

lemma silent_input_invalid:
  "convolve [0, 0 :: real] 2 [0] 1 [0, 0] 2 = Inl Invalid_Operation"
  by (simp add: convolve_def convolve_loops_def clear_loop.simps sample_loop.simps
      impulse_loop.simps scaleValuesToRangeOfPlusMinus1_def largestSampleIn_def
      largest_loop.simps scale_loop.simps fdiv_def nudge_def)

subsection \<open>Rounded arithmetic\<close>

text \<open>With no rounding, the functions in rounded arithmetic are the exact ones.\<close>

lemma impulse_loop_rounded_exact:
  "impulse_loop_rounded (\<lambda>v. v) x n h M m y = impulse_loop x n h M m y"
proof (induction x n h M m y rule: impulse_loop.induct)
  case (1 x n h M m y)
  then show ?case
    by (subst impulse_loop_rounded.simps, subst impulse_loop.simps) simp
qed

lemma sample_loop_rounded_exact:
  "sample_loop_rounded (\<lambda>v. v) x N h M n y = sample_loop x N h M n y"
proof (induction x N h M n y rule: sample_loop.induct)
  case (1 x N h M n y)
  then show ?case
    by (subst sample_loop_rounded.simps, subst sample_loop.simps)
       (simp add: impulse_loop_rounded_exact split: sum.splits)
qed

lemma convolve_loops_rounded_exact:
  "convolve_loops_rounded (\<lambda>v. v) x N h M y P = convolve_loops x N h M y P"
  by (simp add: convolve_loops_rounded_def convolve_loops_def sample_loop_rounded_exact
      split: sum.splits)

lemma largestSampleIn_rounded_exact:
  "largestSampleIn_rounded (\<lambda>v. v) (\<lambda>v. v) y P = largestSampleIn y P"
  by (simp add: largestSampleIn_rounded_def largestSampleIn_def)

lemma nudge_rounded_exact:
  "nudge_rounded (\<lambda>v. v) (\<lambda>v. v) y p = nudge y p"
  by (simp add: nudge_rounded_def nudge_def)

lemma scale_loop_rounded_exact:
  "scale_loop_rounded (\<lambda>v. v) (\<lambda>v. v) largest P p y = scale_loop largest P p y"
proof (induction largest P p y rule: scale_loop.induct)
  case (1 largest P p y)
  then show ?case
    by (subst scale_loop_rounded.simps, subst scale_loop.simps)
       (simp add: nudge_rounded_exact split: sum.splits)
qed

lemma scaleValues_rounded_exact:
  "scaleValuesToRangeOfPlusMinus1_rounded (\<lambda>v. v) (\<lambda>v. v) y P =
   scaleValuesToRangeOfPlusMinus1 y P"
  by (simp add: scaleValuesToRangeOfPlusMinus1_rounded_def scaleValuesToRangeOfPlusMinus1_def
      largestSampleIn_rounded_exact scale_loop_rounded_exact split: sum.splits)

lemma convolve_rounded_exact:
  "convolve_rounded (\<lambda>v. v) (\<lambda>v. v) x N h M y P = convolve x N h M y P"
  by (simp add: convolve_rounded_def convolve_def convolve_loops_rounded_exact
      scaleValues_rounded_exact split: sum.splits)

text \<open>The properties of the rounding that make it the one to nearest.\<close>

lemma nearest_even_error: "\<bar>of_int (nearest_even v) - v\<bar> \<le> 1 / 2"
  unfolding nearest_even_def Let_def by (auto simp add: abs_if) linarith+

lemma pow2_pos: "0 < pow2 e"
  by (simp add: pow2_def)

lemma pow2_Suc: "pow2 (e + 1) = 2 * pow2 e"
proof (cases "0 \<le> e")
  case True
  then show ?thesis by (simp add: pow2_def nat_add_distrib)
next
  case False
  then have "nat (- e) = Suc (nat (- (e + 1)))" by simp
  then show ?thesis using False by (auto simp add: pow2_def simp del: nat_diff_distrib')
qed

text \<open>The exponent is that of the binade: \<open>2^e \<le> a < 2^(e + 1)\<close>.\<close>

lemma binary_exponent_bounds:
  assumes "0 < a"
  shows "pow2 (binary_exponent a) \<le> a \<and> a < pow2 (binary_exponent a + 1)"
proof (cases "1 \<le> a")
  case True
  then have f: "0 < \<lfloor>a\<rfloor>" by simp
  from bitlen_bounds [OF f]
  have b: "2 ^ nat (bitlen \<lfloor>a\<rfloor> - 1) \<le> \<lfloor>a\<rfloor>" "\<lfloor>a\<rfloor> < 2 ^ nat (bitlen \<lfloor>a\<rfloor>)" by simp_all
  have p: "0 < bitlen \<lfloor>a\<rfloor>" using b(2) f by (cases "0 < bitlen \<lfloor>a\<rfloor>") auto
  have "(2 :: real) ^ nat (bitlen \<lfloor>a\<rfloor> - 1) = of_int (2 ^ nat (bitlen \<lfloor>a\<rfloor> - 1))" by simp
  also have "\<dots> \<le> of_int \<lfloor>a\<rfloor>" using b(1) by (simp only: of_int_le_iff)
  also have "\<dots> \<le> a" by simp
  finally have 1: "(2 :: real) ^ nat (bitlen \<lfloor>a\<rfloor> - 1) \<le> a" .
  have "\<lfloor>a\<rfloor> + 1 \<le> 2 ^ nat (bitlen \<lfloor>a\<rfloor>)" using b(2) by simp
  then have "of_int (\<lfloor>a\<rfloor> + 1) \<le> (of_int (2 ^ nat (bitlen \<lfloor>a\<rfloor>)) :: real)"
    by (simp only: of_int_le_iff)
  then have "of_int \<lfloor>a\<rfloor> + 1 \<le> (2 :: real) ^ nat (bitlen \<lfloor>a\<rfloor>)" by simp
  moreover have "a < of_int \<lfloor>a\<rfloor> + 1" by linarith
  ultimately have 2: "a < 2 ^ nat (bitlen \<lfloor>a\<rfloor>)" by linarith
  show ?thesis using True 1 2 p by (simp add: binary_exponent_def pow2_def)
next
  case False
  let ?t = "1 / a"
  let ?k = "bitlen \<lfloor>?t\<rfloor> - 1"
  have t: "1 < ?t" using False assms by simp
  then have f: "0 < \<lfloor>?t\<rfloor>" by simp
  from bitlen_bounds [OF f]
  have b: "2 ^ nat ?k \<le> \<lfloor>?t\<rfloor>" "\<lfloor>?t\<rfloor> < 2 ^ nat (bitlen \<lfloor>?t\<rfloor>)" by simp_all
  have "0 < bitlen \<lfloor>?t\<rfloor>" using b(2) f by (cases "0 < bitlen \<lfloor>?t\<rfloor>") auto
  then have p: "0 \<le> ?k" by simp
  have "(2 :: real) ^ nat ?k = of_int (2 ^ nat ?k)" by simp
  also have "\<dots> \<le> of_int \<lfloor>?t\<rfloor>" using b(1) by (simp only: of_int_le_iff)
  also have "\<dots> \<le> ?t" by simp
  finally have 1: "(2 :: real) ^ nat ?k \<le> ?t" .
  have "\<lfloor>?t\<rfloor> + 1 \<le> 2 ^ nat (bitlen \<lfloor>?t\<rfloor>)" using b(2) by simp
  then have "of_int (\<lfloor>?t\<rfloor> + 1) \<le> (of_int (2 ^ nat (bitlen \<lfloor>?t\<rfloor>)) :: real)"
    by (simp only: of_int_le_iff)
  then have "of_int \<lfloor>?t\<rfloor> + 1 \<le> (2 :: real) ^ nat (bitlen \<lfloor>?t\<rfloor>)" by simp
  moreover have "?t < of_int \<lfloor>?t\<rfloor> + 1" by linarith
  ultimately have "?t < 2 ^ nat (bitlen \<lfloor>?t\<rfloor>)" by linarith
  moreover have "nat (bitlen \<lfloor>?t\<rfloor>) = Suc (nat ?k)" using p by simp
  ultimately have 2: "?t < 2 * 2 ^ nat ?k" by simp
  have a1: "a * 2 ^ nat ?k \<le> 1" using 1 assms by (simp add: field_simps)
  have a2: "1 < a * (2 * 2 ^ nat ?k)" using 2 assms by (simp add: field_simps)
  show ?thesis
  proof (cases "?t = 2 ^ nat ?k")
    case True
    then have e: "binary_exponent a = - ?k" using False by (simp add: binary_exponent_def Let_def)
    have v: "a = 1 / 2 ^ nat ?k" using True assms by (simp add: field_simps)
    have "pow2 (- ?k) = 1 / 2 ^ nat ?k" using p by (auto simp add: pow2_def)
    then have "pow2 (- ?k) = a" using v by simp
    then show ?thesis unfolding e pow2_Suc using assms by simp
  next
    case ne: False
    then have e: "binary_exponent a = - ?k - 1" using False by (simp add: binary_exponent_def Let_def)
    have s: "pow2 (- ?k - 1 + 1) = 1 / 2 ^ nat ?k" using p by (auto simp add: pow2_def)
    then have s': "pow2 (- ?k - 1) = 1 / (2 * 2 ^ nat ?k)" unfolding pow2_Suc by simp
    have "a * 2 ^ nat ?k \<noteq> 1" using ne assms by (auto simp add: field_simps)
    with a1 have "a * 2 ^ nat ?k < 1" by simp
    then have "a < 1 / 2 ^ nat ?k" by (simp add: field_simps)
    moreover have "1 / (2 * 2 ^ nat ?k) \<le> a" using a2 by (simp add: field_simps)
    ultimately show ?thesis unfolding e s s' by simp
  qed
qed

lemma pow2_power_int: "pow2 e = 2 powi e"
  by (simp add: pow2_def power_int_def inverse_eq_divide power_one_over)

text \<open>
  \<open>round_to p v\<close> is a multiple \<open>m * u\<close> of the unit \<open>u = 2^(e - p + 1)\<close> of the binade of
  \<open>v\<close>, with a significand \<open>m\<close> of at most \<open>p\<close> bits (or \<open>m = 2^p\<close>, the next power of
  two), and no further from \<open>v\<close> than half a unit.
\<close>

lemma round_to_nearest:
  fixes p :: nat and v :: real
  assumes "v \<noteq> 0"
  shows "\<exists>m. round_to p v = of_int m * pow2 (binary_exponent \<bar>v\<bar> - (int p - 1)) \<and>
           \<bar>m\<bar> \<le> 2 ^ p \<and>
           \<bar>round_to p v - v\<bar> \<le> pow2 (binary_exponent \<bar>v\<bar> - (int p - 1)) / 2"
proof -
  define u where "u = pow2 (binary_exponent \<bar>v\<bar> - (int p - 1))"
  have u: "0 < u" unfolding u_def by (rule pow2_pos)
  let ?e = "binary_exponent \<bar>v\<bar>"
  let ?m = "nearest_even (v / u)"
  have r: "round_to p v = of_int ?m * u" using assms(1) by (simp add: round_to_def u_def Let_def)
  have "of_int ?m * u - v = (of_int ?m - v / u) * u" using u by (simp add: field_simps)
  then have "\<bar>of_int ?m * u - v\<bar> = \<bar>of_int ?m - v / u\<bar> * u"
    using u by (simp only: abs_mult abs_of_pos)
  also have "\<dots> \<le> 1 / 2 * u"
    using nearest_even_error [of "v / u"] u by (simp only: mult_le_cancel_right_pos)
  finally have n: "\<bar>round_to p v - v\<bar> \<le> u / 2" using r by simp
  have "\<bar>v\<bar> < pow2 (?e + 1)" using binary_exponent_bounds [of "\<bar>v\<bar>"] assms(1) by simp
  also have "pow2 (?e + 1) = 2 ^ p * u"
    unfolding u_def pow2_power_int
    by (simp add: power_int_add [symmetric] flip: power_int_of_nat)
  finally have "\<bar>v / u\<bar> < 2 ^ p" using u by (simp add: field_simps)
  with nearest_even_error [of "v / u"] have "\<bar>of_int ?m :: real\<bar> < 2 ^ p + 1" by linarith
  then have "\<bar>of_int ?m :: real\<bar> < of_int (2 ^ p + 1)" by simp
  then have "\<bar>?m\<bar> < 2 ^ p + 1" by (simp only: of_int_abs [symmetric] of_int_less_iff)
  then have "\<bar>?m\<bar> \<le> 2 ^ p" by simp
  with r n show ?thesis unfolding u_def by blast
qed

text \<open>
  The rounding at known values: \<open>1/3\<close> and \<open>0.1\<close> as \<^verbatim>\<open>float\<close> (the bit patterns
  \<^verbatim>\<open>0x3EAAAAAB\<close> and \<^verbatim>\<open>0x3DCCCCCD\<close>), the ties around \<open>2^24\<close>, the initial values of
  \<^verbatim>\<open>largestSampleIn\<close>, and the two \<^verbatim>\<open>double\<close> constants of the source.
\<close>

lemmas rounding_defs = binary32_def binary64_def round_to_def binary_exponent_def pow2_def
  nearest_even_def bitlen_def compute_floorlog Let_def

lemma binary32_examples:
  "binary32 (1 / 3) = 11184811 / 2 ^ 25"
  "binary32 (1 / 10) = 13421773 / 2 ^ 27"
  "binary32 16777217 = 16777216"
  "binary32 16777219 = 16777220"
  "binary32 (- 16777219) = - 16777220"
  "binary32 9999999 = 9999999"
  "binary32 (- 9999999) = - 9999999"
  by (simp_all add: rounding_defs)

lemma binary64_examples:
  "binary64 (1 / 1000000) = 4722366482869645 / 2 ^ 72"
  "binary64 (999999 / 1000000) = 9007190247541737 / 2 ^ 53"
  "binary64 (1 / 3) = 6004799503160661 / 2 ^ 54"
  by (simp_all add: rounding_defs)

text \<open>
  The two signals of the failing input of claim C8, as shorts and as floats. A short
  divided by \<open>32768\<close> has at most 15 bits of significand: the conversion rounds nothing.
\<close>

lemma order_signals_toFloat:
  "map toFloat [1, 2, 27713] = [1 / 32768, 2 / 32768, 27713 / 32768 :: real]"
  "map toFloat [2073, 2073, 4146] = [2073 / 32768, 2073 / 32768, 4146 / 32768 :: real]"
  "map binary32 [1 / 32768, 2 / 32768, 27713 / 32768] = [1 / 32768, 2 / 32768, 27713 / 32768]"
  "map binary32 [2073 / 32768, 2073 / 32768, 4146 / 32768] =
     [2073 / 32768, 2073 / 32768, 4146 / 32768]"
  by (simp_all add: toFloat_def rounding_defs)

text \<open>
  The two loops in \<^verbatim>\<open>float\<close> arithmetic, in the two orders. The exact value of \<open>y[2]\<close> is
  \<open>57457341 / 2^30\<close> in both; it has 26 bits and is reached by two additions whose
  intermediate sums differ with the order.
\<close>

lemma order_loops_sample_first:
  "convolve_loops_rounded binary32 [1 / 32768, 2 / 32768, 27713 / 32768] 3
      [2073 / 32768, 2073 / 32768, 4146 / 32768] 3 [0, 0, 0, 0, 0] 5 =
   Inr [2073 / 2 ^ 30, 6219 / 2 ^ 30, 57457340 / 2 ^ 30, 57457340 / 2 ^ 30, 114898096 / 2 ^ 30]"
  by (simp add: convolve_loops_rounded_def clear_loop.simps sample_loop_rounded.simps
      impulse_loop_rounded.simps rounding_defs)

lemma order_loops_impulse_first:
  "convolve_loops_rounded binary32 [2073 / 32768, 2073 / 32768, 4146 / 32768] 3
      [1 / 32768, 2 / 32768, 27713 / 32768] 3 [0, 0, 0, 0, 0] 5 =
   Inr [2073 / 2 ^ 30, 6219 / 2 ^ 30, 57457336 / 2 ^ 30, 57457340 / 2 ^ 30, 114898096 / 2 ^ 30]"
  by (simp add: convolve_loops_rounded_def clear_loop.simps sample_loop_rounded.simps
      impulse_loop_rounded.simps rounding_defs)

text \<open>
  In the first buffer \<open>y[3]\<close> is not above \<open>y[2]\<close>, so it is compared with \<^verbatim>\<open>lowest\<close>
  and becomes the lowest sample. The second buffer increases strictly: every sample is a
  new highest, none is compared with \<^verbatim>\<open>lowest\<close>, which keeps its initial value.
\<close>

lemma order_largest_sample_first:
  "largest_loop
     [2073 / 2 ^ 30, 6219 / 2 ^ 30, 57457340 / 2 ^ 30, 57457340 / 2 ^ 30, 114898096 / 2 ^ 30] 5 0
     (binary32 (- 9999999)) (binary32 9999999) =
   Inr (114898096 / 2 ^ 30, 57457340 / 2 ^ 30 :: real)"
  "largestSampleIn_rounded binary32 binary64
     [2073 / 2 ^ 30, 6219 / 2 ^ 30, 57457340 / 2 ^ 30, 57457340 / 2 ^ 30, 114898096 / 2 ^ 30] 5 =
   Inr (3590599 / 2 ^ 25)"
  by (simp_all add: largestSampleIn_rounded_def largest_loop.simps rounding_defs)

lemma order_largest_impulse_first:
  "largest_loop
     [2073 / 2 ^ 30, 6219 / 2 ^ 30, 57457336 / 2 ^ 30, 57457340 / 2 ^ 30, 114898096 / 2 ^ 30] 5 0
     (binary32 (- 9999999)) (binary32 9999999) =
   Inr (114898096 / 2 ^ 30, 9999999 :: real)"
  "largestSampleIn_rounded binary32 binary64
     [2073 / 2 ^ 30, 6219 / 2 ^ 30, 57457336 / 2 ^ 30, 57457340 / 2 ^ 30, 114898096 / 2 ^ 30] 5 =
   Inr 9999999"
  by (simp_all add: largestSampleIn_rounded_def largest_loop.simps rounding_defs)

lemma order_scale_sample_first:
  "scale_loop_rounded binary32 binary64 (3590599 / 2 ^ 25) 5 0
     [2073 / 2 ^ 30, 6219 / 2 ^ 30, 57457340 / 2 ^ 30, 57457340 / 2 ^ 30, 114898096 / 2 ^ 30] =
   Inr [9918643 / 2 ^ 39, 3719491 / 2 ^ 36, 8389741 / 2 ^ 24, 8389741 / 2 ^ 24,
        16777059 / 2 ^ 24]"
  by (simp add: scale_loop_rounded.simps nudge_rounded_def fdiv_def rounding_defs)

lemma order_scale_impulse_first:
  "scale_loop_rounded binary32 binary64 9999999 5 0
     [2073 / 2 ^ 30, 6219 / 2 ^ 30, 57457336 / 2 ^ 30, 57457340 / 2 ^ 30, 114898096 / 2 ^ 30] =
   Inr [14245549 / 2 ^ 66, 5342081 / 2 ^ 63, 6024839 / 2 ^ 50, 12049679 / 2 ^ 51,
        3011985 / 2 ^ 48]"
  by (simp add: scale_loop_rounded.simps nudge_rounded_def fdiv_def rounding_defs)

lemma order_shorts:
  "map toInt [9918643 / 2 ^ 39, 3719491 / 2 ^ 36, 8389741 / 2 ^ 24, 8389741 / 2 ^ 24,
        16777059 / 2 ^ 24 :: real] = [0, 1, 16386, 16386, 32767]"
  "map toInt [14245549 / 2 ^ 66, 5342081 / 2 ^ 63, 6024839 / 2 ^ 50, 12049679 / 2 ^ 51,
        3011985 / 2 ^ 48 :: real] = [0, 0, 0, 0, 0]"
  by (simp_all add: toInt_def truncate_toward_zero_def)

section \<open>The claims\<close>

text \<open>
  Claim C1. With \<open>x\<close> of length \<open>N \<ge> 1\<close>, \<open>h\<close> of length \<open>M \<ge> 1\<close> and the buffer
  \<open>y\<close> of \<open>P = N + M - 1\<close> elements that \<^verbatim>\<open>createOutputFile\<close> allocates (lines 148-150),
  the loops of \<^verbatim>\<open>convolve\<close> return, before the scaling, a sequence of length exactly
  \<open>N + M - 1\<close> whose element at every index \<open>p\<close> is the sum of \<open>x[n] * h[p - n]\<close> over
  the valid \<open>n\<close> (\<open>0 \<le> n < N\<close> and \<open>0 \<le> p - n < M\<close>), whatever the buffer held before.
  The sum is the exact one, in any semiring; lemma \<open>convolve_loops_fold\<close> gives the
  order in which the loops add the products, with no law of arithmetic assumed.
\<close>

theorem convolve_loops_sum:
  fixes x h y :: "'a::semiring_0 list"
  assumes "1 \<le> N" and "1 \<le> M"
    and "int (length x) = N" and "int (length h) = M" and "int (length y) = N + M - 1"
  shows "\<exists>y'. convolve_loops x N h M y (N + M - 1) = Inr y' \<and>
           int (length y') = N + M - 1 \<and>
           (\<forall>p<length y'. y' ! p =
               (\<Sum>n | n < length x \<and> n \<le> p \<and> p - n < length h. x ! n * h ! (p - n)))"
  using assms by (rule convolve_loops_sum_aux)

theorem convolve_loops_sum_witness:
  "(1::int) \<le> 2 \<and> (1::int) \<le> 2 \<and> int (length [1, 2 :: rat]) = 2 \<and>
   int (length [3, 4 :: rat]) = 2 \<and> int (length [9, 9, 9 :: rat]) = 2 + 2 - 1 \<and>
   (\<exists>y'. convolve_loops [1, 2 :: rat] 2 [3, 4] 2 [9, 9, 9] (2 + 2 - 1) = Inr y' \<and>
      int (length y') = 2 + 2 - 1 \<and>
      (\<forall>p<length y'. y' ! p =
          (\<Sum>n | n < length [1, 2 :: rat] \<and> n \<le> p \<and> p - n < length [3, 4 :: rat].
              [1, 2] ! n * [3, 4] ! (p - n))))"
proof -
  have a: "(1::int) \<le> 2" by simp
  have b: "int (length [1, 2 :: rat]) = 2" "int (length [3, 4 :: rat]) = 2"
    "int (length [9, 9, 9 :: rat]) = 2 + 2 - 1" by simp_all
  from convolve_loops_sum [OF a a b] show ?thesis using a b by blast
qed

text \<open>
  Claim C8, at an input where the two orders differ. The shorts \<open>1, 2, 27713\<close> against
  the shorts \<open>2073, 2073, 4146\<close>, in \<^verbatim>\<open>float\<close> arithmetic (binary32, with the \<^verbatim>\<open>double\<close>
  constants in binary64). In exact arithmetic the two orders give the same buffer (lemma
  \<open>convolve_loops_commute\<close>), with \<open>y[2] = y[3] = 57457341 / 2^30\<close>. In \<^verbatim>\<open>float\<close>
  arithmetic the loops round \<open>y[2]\<close> to \<open>57457340 / 2^30\<close> in one order and to
  \<open>57457336 / 2^30\<close> in the other, a difference of one part in \<open>10^7\<close>, within any
  floating-point tolerance. But the second buffer now increases strictly, and
  \<^verbatim>\<open>largestSampleIn\<close>, which compares a sample with \<^verbatim>\<open>lowest\<close> only when it is not a new
  highest, leaves \<^verbatim>\<open>lowest\<close> at its initial value: \<^verbatim>\<open>convolve\<close> divides the first buffer
  by \<open>3590599 / 2^25\<close> (about \<open>0.107008\<close>) and the second by \<open>9999999\<close>. The last sample
  of the result is above \<open>0.99999\<close> in one order and below \<open>0.00000002\<close> in the other, and
  the shorts written are \<open>0, 1, 16386, 16386, 32767\<close> against five zeros.
\<close>

theorem convolve_order_changes_result:
  "convolve_loops_rounded binary32 (map toFloat [1, 2, 27713]) 3
      (map toFloat [2073, 2073, 4146]) 3 [0, 0, 0, 0, 0] 5 =
     Inr [2073 / 2 ^ 30, 6219 / 2 ^ 30, 57457340 / 2 ^ 30, 57457340 / 2 ^ 30,
          114898096 / 2 ^ 30] \<and>
   convolve_loops_rounded binary32 (map toFloat [2073, 2073, 4146]) 3
      (map toFloat [1, 2, 27713]) 3 [0, 0, 0, 0, 0] 5 =
     Inr [2073 / 2 ^ 30, 6219 / 2 ^ 30, 57457336 / 2 ^ 30, 57457340 / 2 ^ 30,
          114898096 / 2 ^ 30] \<and>
   convolve_rounded binary32 binary64 (map toFloat [1, 2, 27713]) 3
      (map toFloat [2073, 2073, 4146]) 3 [0, 0, 0, 0, 0] 5 =
     Inr [9918643 / 2 ^ 39, 3719491 / 2 ^ 36, 8389741 / 2 ^ 24, 8389741 / 2 ^ 24,
          16777059 / 2 ^ 24] \<and>
   convolve_rounded binary32 binary64 (map toFloat [2073, 2073, 4146]) 3
      (map toFloat [1, 2, 27713]) 3 [0, 0, 0, 0, 0] 5 =
     Inr [14245549 / 2 ^ 66, 5342081 / 2 ^ 63, 6024839 / 2 ^ 50, 12049679 / 2 ^ 51,
          3011985 / 2 ^ 48] \<and>
   map toInt [9918643 / 2 ^ 39, 3719491 / 2 ^ 36, 8389741 / 2 ^ 24, 8389741 / 2 ^ 24,
        16777059 / 2 ^ 24 :: real] = [0, 1, 16386, 16386, 32767] \<and>
   map toInt [14245549 / 2 ^ 66, 5342081 / 2 ^ 63, 6024839 / 2 ^ 50, 12049679 / 2 ^ 51,
        3011985 / 2 ^ 48 :: real] = [0, 0, 0, 0, 0] \<and>
   (99999 / 100000 :: real) < 16777059 / 2 ^ 24 \<and> 3011985 / 2 ^ 48 < (2 / 100000000 :: real)"
proof -
  have a: "convolve_rounded binary32 binary64 [1 / 32768, 2 / 32768, 27713 / 32768] 3
      [2073 / 32768, 2073 / 32768, 4146 / 32768] 3 [0, 0, 0, 0, 0] 5 =
     Inr [9918643 / 2 ^ 39, 3719491 / 2 ^ 36, 8389741 / 2 ^ 24, 8389741 / 2 ^ 24,
          16777059 / 2 ^ 24]"
    unfolding convolve_rounded_def scaleValuesToRangeOfPlusMinus1_rounded_def
    by (simp only: order_loops_sample_first order_largest_sample_first
        order_scale_sample_first sum.case)
  have b: "convolve_rounded binary32 binary64 [2073 / 32768, 2073 / 32768, 4146 / 32768] 3
      [1 / 32768, 2 / 32768, 27713 / 32768] 3 [0, 0, 0, 0, 0] 5 =
     Inr [14245549 / 2 ^ 66, 5342081 / 2 ^ 63, 6024839 / 2 ^ 50, 12049679 / 2 ^ 51,
          3011985 / 2 ^ 48]"
    unfolding convolve_rounded_def scaleValuesToRangeOfPlusMinus1_rounded_def
    by (simp only: order_loops_impulse_first order_largest_impulse_first
        order_scale_impulse_first sum.case)
  have c: "(99999 / 100000 :: real) < 16777059 / 2 ^ 24"
    "3011985 / 2 ^ 48 < (2 / 100000000 :: real)"
    by simp_all
  show ?thesis
    unfolding order_signals_toFloat(1,2)
    using order_loops_sample_first order_loops_impulse_first a b order_shorts c
    by (intro conjI)
qed

text \<open>
  Claim C10. For \<open>N \<ge> 1\<close>, \<open>M \<ge> 1\<close> and a buffer of \<open>P = N + M - 1\<close> elements, every
  array access of \<^verbatim>\<open>convolve\<close> is in bounds: the clearing loop writes the indices
  \<open>0 .. P - 1\<close> (it returns the buffer of \<open>P\<close> zeros), every pair \<open>n < N\<close>, \<open>m < M\<close>
  gives \<open>n\<close> inside \<open>x\<close>, \<open>m\<close> inside \<open>h\<close> and \<open>n + m \<le> P - 1\<close> inside \<open>y\<close>, the two
  loops return a buffer, and the whole of \<^verbatim>\<open>convolve\<close>, scaling included, never ends in
  the fault \<open>Out_Of_Bounds\<close>, which the model raises at any access outside an array.
\<close>

theorem convolve_in_bounds:
  fixes x h y :: "'a::linordered_field list"
  assumes "1 \<le> N" and "1 \<le> M"
    and "int (length x) = N" and "int (length h) = M" and "int (length y) = P" and "P = N + M - 1"
  shows "clear_loop P 0 y = Inr (replicate (nat P) 0) \<and>
    (\<forall>n m. int n < N \<longrightarrow> int m < M \<longrightarrow>
        n < length x \<and> m < length h \<and> int (n + m) \<le> P - 1 \<and> n + m < length y) \<and>
    (\<exists>y'. convolve_loops x N h M y P = Inr y' \<and> length y' = length y) \<and>
    convolve x N h M y P \<noteq> Inl Out_Of_Bounds"
proof -
  have P: "P \<le> int (length y)" using assms by simp
  from clear_loop_nth [OF P, of 0]
  obtain y0 where y0: "clear_loop P 0 y = Inr y0" "length y0 = length y"
      "\<forall>k<length y. y0 ! k = (if int k < P then 0 else y ! k)"
    by auto
  have "y0 = replicate (nat P) 0"
    using y0(2,3) assms(5) by (intro nth_equalityI) auto
  then have 1: "clear_loop P 0 y = Inr (replicate (nat P) 0)" using y0(1) by simp
  have 2: "\<forall>n m. int n < N \<longrightarrow> int m < M \<longrightarrow>
        n < length x \<and> m < length h \<and> int (n + m) \<le> P - 1 \<and> n + m < length y"
    using assms by auto
  from convolve_loops_fold [of N x M h y P] assms
  obtain y' where y': "convolve_loops x N h M y P = Inr y'" "length y' = length y"
    by auto
  then have 3: "\<exists>y'. convolve_loops x N h M y P = Inr y' \<and> length y' = length y" by blast
  have 4: "convolve x N h M y P \<noteq> Inl Out_Of_Bounds"
    using y' scaleValues_in_bounds [of P y'] P by (simp add: convolve_def)
  from 1 2 3 4 show ?thesis by blast
qed

theorem convolve_in_bounds_witness:
  "(1::int) \<le> 2 \<and> (1::int) \<le> 1 \<and> int (length [1, 2 :: rat]) = 2 \<and>
   int (length [3 :: rat]) = 1 \<and> int (length [9, 9 :: rat]) = 2 \<and> (2::int) = 2 + 1 - 1 \<and>
   clear_loop 2 0 [9, 9 :: rat] = Inr (replicate (nat 2) 0) \<and>
   (Suc 0 < length [1, 2 :: rat] \<and> 0 < length [3 :: rat] \<and> int (Suc 0 + 0) \<le> 2 - 1 \<and>
        Suc 0 + 0 < length [9, 9 :: rat]) \<and>
   (\<exists>y'. convolve_loops [1, 2 :: rat] 2 [3] 1 [9, 9] 2 = Inr y' \<and> length y' = length [9, 9 :: rat]) \<and>
   convolve [1, 2 :: rat] 2 [3] 1 [9, 9] 2 \<noteq> Inl Out_Of_Bounds"
proof -
  have a: "(1::int) \<le> 2" "(1::int) \<le> 1" by simp_all
  have b: "int (length [1, 2 :: rat]) = 2" "int (length [3 :: rat]) = 1"
    "int (length [9, 9 :: rat]) = 2" "(2::int) = 2 + 1 - 1" by simp_all
  have c: "int (Suc 0) < 2" "int 0 < 1" by simp_all
  from convolve_in_bounds [OF a b] c show ?thesis using a b by blast
qed

text \<open>
  Claim C2, at an input where the code leaves the range. The samples \<open>-16384, 8192, 4096\<close>
  against the one-sample impulse response \<open>16384\<close> are \<open>x = [-0.5, 0.25, 0.125]\<close> and
  \<open>h = [0.5]\<close> in floating form, all exact in single precision, as are the three products.
  \<^verbatim>\<open>largestSampleIn\<close> takes the first sample as a new highest and so never compares it
  with \<^verbatim>\<open>lowest\<close>: it returns \<open>0.125001\<close>, and the first sample of the result is
  \<open>-0.25 / 0.125001\<close>, below \<open>-1\<close>. (The upper bound of the claim does hold in the
  model, lemma \<open>scaled_samples_below_one\<close>; a silent input is a second way out of the
  range, lemma \<open>silent_input_invalid\<close>.)
\<close>

theorem convolve_sample_below_minus_one:
  "convolve [- (1 / 2), 1 / 4, 1 / 8 :: real] 3 [1 / 2] 1 [0, 0, 0] 3 =
     Inr [- (250000 / 125001), 125000 / 125001, 62500 / 125001] \<and>
   - (250000 / 125001) < (- 1 :: real)"
  by (simp add: convolve_def convolve_loops_def clear_loop.simps sample_loop.simps
      impulse_loop.simps scaleValuesToRangeOfPlusMinus1_def largestSampleIn_def
      largest_loop.simps scale_loop.simps fdiv_def nudge_def)

text \<open>
  Claim C3, as stated, fails at \<open>y = [0.5, -1]\<close>: the true maximum \<open>0.5\<close> is positive, so
  the specification's renormalizer divides by \<open>1 + 1e-6\<close>; the code compares the maximum
  with the magnitude of the minimum, finds \<open>0.5 > 1\<close> false and divides by \<open>1\<close>.
\<close>

theorem renormalize_differs_from_spec:
  "scaleValuesToRangeOfPlusMinus1 [1 / 2, - 1 :: real] 2 = Inr [1 / 2, - 1] \<and>
   renormalize_spec [1 / 2, - 1 :: real] = [500000 / 1000001, - (1000000 / 1000001)] \<and>
   scaleValuesToRangeOfPlusMinus1 [1 / 2, - 1 :: real] 2 \<noteq> Inr (renormalize_spec [1 / 2, - 1])"
  by (simp add: scaleValuesToRangeOfPlusMinus1_def largestSampleIn_def largest_loop.simps
      scale_loop.simps fdiv_def nudge_def renormalize_spec_def)

text \<open>
  Claim C3, amended. For a buffer \<open>y\<close> of \<open>P\<close> samples, all within \<open>\<plusminus>9999999\<close> and not
  all zero, whose minimum is found at an index other than 0: the scaling function takes
  the true maximum \<open>highest\<close> and the true minimum \<open>lowest\<close>, divides every sample by
  \<open>highest + 1e-6\<close> if \<open>highest > |lowest|\<close> and by \<open>|lowest|\<close> otherwise, and then
  decrements by \<open>1e-6\<close> every sample greater than \<open>0.999999\<close>.
\<close>

theorem scaleValues_by_peak:
  fixes y :: "'a::linordered_field list"
  assumes "\<forall>v\<in>set y. \<bar>v\<bar> \<le> 9999999" and "Min (set y) \<in> set (tl y)"
    and "\<exists>v\<in>set y. v \<noteq> 0"
  shows "scaleValuesToRangeOfPlusMinus1 y (int (length y)) =
     (let highest = Max (set y); lowest = Min (set y);
          largest = (if highest > \<bar>lowest\<bar> then highest + 1 / 1000000 else \<bar>lowest\<bar>)
      in Inr (map (\<lambda>v. if v / largest > 999999 / 1000000 then v / largest - 1 / 1000000
                        else v / largest) y))"
proof -
  let ?L = "if Max (set y) > \<bar>Min (set y)\<bar> then Max (set y) + 1 / 1000000 else \<bar>Min (set y)\<bar>"
  have L: "largestSampleIn y (int (length y)) = Inr ?L"
    using assms(1,2) by (rule largestSampleIn_Max_Min)
  have ne: "y \<noteq> []" using assms(3) by auto
  have "?L \<noteq> 0"
  proof (cases "Max (set y) > \<bar>Min (set y)\<bar>")
    case True
    then have "0 < Max (set y)" by (rule le_less_trans [OF abs_ge_zero])
    then show ?thesis using True by simp
  next
    case False
    from assms(3) obtain v where v: "v \<in> set y" "v \<noteq> 0" by blast
    have "Min (set y) \<noteq> 0"
    proof
      assume z: "Min (set y) = 0"
      then have "Max (set y) \<le> 0" using False by simp
      moreover have "v \<le> Max (set y)" "Min (set y) \<le> v" using v(1) by simp_all
      ultimately show False using z v(2) by simp
    qed
    then show ?thesis using False by simp
  qed
  from scaleValues_map [OF L this] show ?thesis
    by (simp add: adjust_def Let_def)
qed

theorem scaleValues_by_peak_witness:
  "(\<exists>v\<in>set [1 / 2, - 1 :: real]. v \<noteq> 0) \<and>
   scaleValuesToRangeOfPlusMinus1 [1 / 2, - 1 :: real] (int (length [1 / 2, - 1 :: real])) =
     Inr [1 / 2, - 1]"
proof -
  have a: "\<forall>v\<in>set [1 / 2, - 1 :: real]. \<bar>v\<bar> \<le> 9999999" by simp
  have b: "Min (set [1 / 2, - 1 :: real]) \<in> set (tl [1 / 2, - 1 :: real])" by simp
  have c: "\<exists>v\<in>set [1 / 2, - 1 :: real]. v \<noteq> 0" by simp
  from scaleValues_by_peak [OF a b c] c show ?thesis by (simp add: Let_def)
qed

text \<open>
  Claim C4. Converting a 16-bit sample to floating form and back gives the sample again,
  for every 16-bit sample (the two most negative ones included). The quotient
  \<open>s / 32768\<close> is a multiple of \<open>2^-15\<close> of magnitude at most 1 (lemma
  \<open>toFloat_dyadic\<close>), which single precision represents exactly, so the exact arithmetic
  of the model is that of the program here.
\<close>

theorem codec_round_trip: "toInt (toFloat s :: 'a::floor_ceiling) = s"
  by (rule toInt_toFloat)

text \<open>
  Claim C5, at an input where the search misses the data chunk. The sample file has a
  \<^verbatim>\<open>LIST\<close> chunk between the two sub-chunks, whose last byte is the letter d of the title
  "bird"; the tag of the data chunk follows at byte 60. The loop takes that d as the
  first byte of a tag, reads the d of the tag as a second byte that does not match, and
  goes on from the byte after it: it never sees the tag, reaches the end of the file and
  reads there for ever. \<^verbatim>\<open>readInputFileHeaders\<close> does not return.
\<close>

theorem data_chunk_missed:
  "take 4 (drop 60 wav_title_bird) = data_tag \<and>
   readInputFileHeaders (opened wav_title_bird wav_one_sample zero_header) = None"
proof -
  let ?f = "readInputFileHeaders_before_scan (opened wav_title_bird wav_one_sample zero_header)"
  let ?s = "\<lparr>contents = wav_title_bird, position = 40\<rparr>"
  let ?pre = "[16, 0, 0, 0, 73, 78, 70, 79, 73, 78, 65, 77, 4, 0, 0, 0, 98, 105, 114] :: byte list"
  have tag: "take 4 (drop 60 wav_title_bird) = data_tag" by code_simp
  have ident: "subchunk2_id (header_sample ?f) = (76, 73, 83, 84)" by code_simp
  have sfile: "sample_file ?f = ?s" by code_simp
  have r: "rest ?s = ?pre @ [100, 100, 97, 116, 97, 2, 0, 0, 0, 0, 64]" by code_simp
  have nd: "\<not> is_data (76, 73, 83, 84)" by (simp add: is_data_iff)
  have "tag_while ((76, 73, 83, 84), ?s) =
        tag_while (update4 (76, 73, 83, 84) 0 (last ?pre), ?s\<lparr>position := position ?s + length ?pre\<rparr>)"
    by (rule tag_while_skip [OF _ _ r nd]) simp_all
  also have "\<dots> = tag_while ((114, 73, 83, 84), \<lparr>contents = wav_title_bird, position = 59\<rparr>)"
    by (simp add: update4_simps)
  also have "\<dots> = tag_while (tag_for_loop 0 ((114, 73, 83, 84), \<lparr>contents = wav_title_bird, position = 59\<rparr>))"
    by (rule tag_while_unfold(1)) (simp add: is_data_iff)
  also have "tag_for_loop 0 ((114, 73, 83, 84), \<lparr>contents = wav_title_bird, position = 59\<rparr>) =
        ((100, 100, 83, 84), \<lparr>contents = wav_title_bird, position = 61\<rparr>)"
    by code_simp
  also have "tag_while ((100, 100, 83, 84), \<lparr>contents = wav_title_bird, position = 61\<rparr>) = None"
  proof (rule tag_while_None)
    show "\<not> is_data (100, 100, 83, 84)" by (simp add: is_data_iff)
    show "\<not> sublist data_tag (rest \<lparr>contents = wav_title_bird, position = 61\<rparr>)" by code_simp
    show "\<not> ends_in_partial_tag (rest \<lparr>contents = wav_title_bird, position = 61\<rparr>)" by code_simp
  qed
  finally have "tag_while (subchunk2_id (header_sample ?f), sample_file ?f) = None"
    by (simp only: ident sfile)
  then have "ensureSubchunk2_idIsSetProperly ?f = None" by (rule ensure_None_sample)
  then have "readInputFileHeaders (opened wav_title_bird wav_one_sample zero_header) = None"
    by (simp add: readInputFileHeaders_def)
  with tag show ?thesis by simp
qed

text \<open>
  Claim C6, as stated, fails on a file with no data chunk: the tag occurs nowhere in it,
  and \<^verbatim>\<open>readInputFileHeaders\<close> raises no error: it does not return.
\<close>

theorem no_error_without_data_tag:
  "\<not> sublist data_tag wav_without_data \<and>
   readInputFileHeaders (opened wav_without_data wav_one_sample zero_header) = None"
proof -
  let ?f = "readInputFileHeaders_before_scan (opened wav_without_data wav_one_sample zero_header)"
  have absent: "\<not> sublist data_tag wav_without_data" by code_simp
  have "\<not> tag_reachable (subchunk2_id (header_sample ?f), sample_file ?f)" by code_simp
  then have "tag_while (subchunk2_id (header_sample ?f), sample_file ?f) = None"
    by (rule tag_while_None_iff_reachable)
  then have "ensureSubchunk2_idIsSetProperly ?f = None" by (rule ensure_None_sample)
  then have "readInputFileHeaders (opened wav_without_data wav_one_sample zero_header) = None"
    by (simp add: readInputFileHeaders_def)
  with absent show ?thesis by simp
qed

text \<open>
  Claim C6, amended. When, for the sample file or for the impulse file, the four bytes
  in \<^verbatim>\<open>subchunk2_id\<close> are not the tag, the tag does not occur in the bytes the stream has
  left, and the stream does not end in a proper beginning of the tag (d, da or dat),
  \<^verbatim>\<open>ensureSubchunk2_idIsSetProperly\<close> raises no error and never returns: at the end of
  the stream it goes on reading for ever.
\<close>

theorem data_tag_never_found:
  assumes "\<not> tag_reachable (subchunk2_id (header_sample f), sample_file f) \<or>
           \<not> tag_reachable (subchunk2_id (header_impulse f), impulse_file f)"
  shows "ensureSubchunk2_idIsSetProperly f = None"
  using assms tag_while_None_iff_reachable ensure_None_sample ensure_None_impulse by blast

theorem data_tag_never_found_witness:
  "\<not> tag_reachable
       (subchunk2_id (header_sample (readInputFileHeaders_before_scan
            (opened wav_without_data wav_one_sample zero_header))),
        sample_file (readInputFileHeaders_before_scan
            (opened wav_without_data wav_one_sample zero_header))) \<and>
   ensureSubchunk2_idIsSetProperly
     (readInputFileHeaders_before_scan (opened wav_without_data wav_one_sample zero_header)) = None"
proof -
  let ?f = "readInputFileHeaders_before_scan (opened wav_without_data wav_one_sample zero_header)"
  have a: "\<not> tag_reachable (subchunk2_id (header_sample ?f), sample_file ?f)" by code_simp
  then have "\<not> tag_reachable (subchunk2_id (header_sample ?f), sample_file ?f) \<or>
           \<not> tag_reachable (subchunk2_id (header_impulse ?f), impulse_file ?f)" by (rule disjI1)
  from data_tag_never_found [OF this] a show ?thesis by (rule conjI [rotated])
qed




text \<open>
  Claim C9. For every header of the sample file and every count \<open>P \<ge> 0\<close> of samples
  that \<open>y\<close> holds, \<^verbatim>\<open>writeOutputFile\<close> writes the header of the sample file with exactly
  three fields changed: the data length is \<open>2 * P\<close> (two bytes per sample), the overall
  length is 36 plus the data length, both in 32-bit arithmetic, and the length of the
  first sub-chunk is 16. The number of channels, the sample rate and the bits per sample
  are those of the sample file. The bytes of this header and then those of the first
  \<open>P\<close> samples are what it writes.
\<close>

theorem writeOutputFile_header:
  assumes "0 \<le> P" and "nat P \<le> length y"
  shows "\<exists>f'. writeOutputFile f y P = Inr f' \<and>
     header_output f' =
       (header_sample f)\<lparr>chunk_size := 36 + word_of_int P * 2, subchunk1_size := 16,
                         subchunk2_size := word_of_int P * 2\<rparr> \<and>
     subchunk2_size (header_output f') = word_of_int (P * 2) \<and>
     chunk_size (header_output f') = word_of_int (36 + P * 2) \<and>
     subchunk1_size (header_output f') = 16 \<and>
     num_channels (header_output f') = num_channels (header_sample f) \<and>
     sample_rate (header_output f') = sample_rate (header_sample f) \<and>
     bits_per_sample (header_output f') = bits_per_sample (header_sample f) \<and>
     output_file f' =
       fwrite (concat (map bytes16 (take (nat P) y)))
         (fwrite (header_to_bytes (header_output f')) (output_file f))"
  using assms by (simp add: writeOutputFile_def Let_def)

theorem writeOutputFile_header_witness:
  "(0::int) \<le> 1 \<and> nat 1 \<le> length [16384 :: 16 word] \<and>
   (\<exists>f'. writeOutputFile (opened wav_one_sample wav_one_sample zero_header) [16384] 1 = Inr f' \<and>
     header_output f' =
       zero_header\<lparr>chunk_size := 36 + word_of_int 1 * 2, subchunk1_size := 16,
                         subchunk2_size := word_of_int 1 * 2\<rparr> \<and>
     subchunk2_size (header_output f') = 2 \<and> chunk_size (header_output f') = 38)"
proof -
  have a: "(0::int) \<le> 1" "nat 1 \<le> length [16384 :: 16 word]" by simp_all
  from writeOutputFile_header [OF a, of "opened wav_one_sample wav_one_sample zero_header"]
  obtain f' where "writeOutputFile (opened wav_one_sample wav_one_sample zero_header) [16384] 1 = Inr f'"
    "header_output f' = (header_sample (opened wav_one_sample wav_one_sample zero_header))
        \<lparr>chunk_size := 36 + word_of_int 1 * 2, subchunk1_size := 16, subchunk2_size := word_of_int 1 * 2\<rparr>"
    "subchunk2_size (header_output f') = word_of_int (1 * 2)"
    "chunk_size (header_output f') = word_of_int (36 + 1 * 2)"
    by blast
  then show ?thesis using a by (simp add: opened_def)
qed

end
